theory Spec2Isabelle
  imports Complex_Main "HOL-Library.Char_ord" "HOL-Library.List_Lexorder" "HOL-Library.Word"
begin

section \<open>Errors\<close>

text \<open>
  Every \<open>PARTHENON_FAIL\<close> of the two source files is a constructor of this type; the
  constructors carry the identifier the message of the source names.
\<close>

datatype error =
    BadVlen string int               \<comment> \<open>"Got variable ... with length ..."\<close>
  | MultipleLengths string           \<comment> \<open>"Got variable ... with multiple different lengths"\<close>
  | NoTerminatingTab                 \<comment> \<open>"all_labels_buffer does not end with \\t"\<close>
  | EmptyLabel                       \<comment> \<open>"Got an empty label"\<close>
  | DifferentSizes nat nat           \<comment> \<open>"all_labels and all_codes have different sizes"\<close>
  | DenseMissing string              \<comment> \<open>"Unable to find dense variable ..."\<close>
  | NullBoundaryFunction nat         \<comment> \<open>"boundary function must not be null"\<close>
  | OutOfRange                       \<comment> \<open>a read or store outside the memory modelled, or a missing key\<close>

section \<open>boundary\_conditions.cpp: the dispatch gate\<close>

text \<open>
  The two enumerations are declared in a header that is not part of the sources at hand;
  their members are the ones the code and the specification name.  The numbering of the
  faces (\<open>static_cast<BoundaryFace>(i)\<close>) is the one of the six faces in the order
  inner/outer x1, x2, x3.
\<close>

datatype BoundaryFlag = block | undef | reflect | outflow | periodic | user

datatype BoundaryFace =
  face_undef | inner_x1 | outer_x1 | inner_x2 | outer_x2 | inner_x3 | outer_x3

definition BOUNDARY_NFACES :: nat where
  "BOUNDARY_NFACES = 6"

definition BoundaryFace_of :: "nat \<Rightarrow> BoundaryFace" where
  "BoundaryFace_of i =
     (if i = 0 then inner_x1 else if i = 1 then outer_x1
      else if i = 2 then inner_x2 else if i = 3 then outer_x2
      else if i = 4 then inner_x3 else if i = 5 then outer_x3
      else face_undef)"

definition DoPhysicalBoundary :: "BoundaryFlag \<Rightarrow> BoundaryFace \<Rightarrow> int \<Rightarrow> bool" where
  "DoPhysicalBoundary flag face ndim =
     (if flag = block then False
      else if flag = undef then False
      else if flag = periodic then False
      else if ndim < 3 \<and> (face = inner_x3 \<or> face = outer_x3) then False
      else if ndim < 2 \<and> (face = inner_x2 \<or> face = outer_x2) then False
      else True)"

text \<open>
  \<open>ApplyBoundaryConditionsOnCoarseOrFine\<close>: the loop over the six faces.  The block data
  is a value of any type \<open>'s\<close>; a registered boundary function maps it to the new block
  data, a null function pointer is \<open>None\<close>.  Next to the data the model returns the
  faces whose function was called, in call order.
\<close>

function apply_faces ::
  "(nat \<Rightarrow> BoundaryFlag) \<Rightarrow> (nat \<Rightarrow> ('s \<Rightarrow> bool \<Rightarrow> 's) option) \<Rightarrow> int \<Rightarrow> bool \<Rightarrow>
   nat \<Rightarrow> 's \<Rightarrow> nat list \<Rightarrow> error + 's \<times> nat list" where
  "apply_faces boundary_flag MeshBndryFnctn ndim coarse i rc called =
     (if i < BOUNDARY_NFACES then
        (if DoPhysicalBoundary (boundary_flag i) (BoundaryFace_of i) ndim then
           (case MeshBndryFnctn i of
              None \<Rightarrow> Inl (NullBoundaryFunction i)
            | Some f \<Rightarrow>
                apply_faces boundary_flag MeshBndryFnctn ndim coarse (i + 1)
                  (f rc coarse) (called @ [i]))
         else apply_faces boundary_flag MeshBndryFnctn ndim coarse (i + 1) rc called)
      else Inr (rc, called))"
  by pat_completeness auto
termination
  by (relation "measure (\<lambda>(bf, fn, ndim, coarse, i, st). BOUNDARY_NFACES - i)") auto

declare apply_faces.simps [simp del]

definition ApplyBoundaryConditionsOnCoarseOrFine ::
  "(nat \<Rightarrow> BoundaryFlag) \<Rightarrow> (nat \<Rightarrow> ('s \<Rightarrow> bool \<Rightarrow> 's) option) \<Rightarrow> int \<Rightarrow> 's \<Rightarrow> bool \<Rightarrow>
   error + 's \<times> nat list" where
  "ApplyBoundaryConditionsOnCoarseOrFine boundary_flag MeshBndryFnctn ndim rc coarse =
     apply_faces boundary_flag MeshBndryFnctn ndim coarse 0 rc []"

section \<open>parthenon\_hdf5.cpp: VarInfo\<close>

text \<open>
  \<open>vlen\<close> and the info code are C++ \<open>int\<close>s.  They are modelled as integers: \<open>&\<close> on a
  two's complement \<open>int\<close> is \<open>AND\<close> on \<open>int\<close>, and the additions of \<open>get_info_code\<close>
  stay below \<open>2 ^ 22\<close> for every \<open>VarInfo\<close> the program can build, since the constructor
  and \<open>Decode\<close> (the default constructor is private) both leave \<open>vlen \<le> max_vlen\<close>.
\<close>

unbundle bit_operations_syntax

record VarInfo =
  label :: string
  vlen :: int
  is_sparse :: bool
  is_vector :: bool

definition max_vlen :: int where
  "max_vlen = push_bit 16 1 - 1"

definition sparse_flag :: int where
  "sparse_flag = push_bit 20 1"

definition vector_flag :: int where
  "vector_flag = push_bit 21 1"

definition Decode :: "string \<Rightarrow> int \<Rightarrow> VarInfo" where
  "Decode lbl info_code =
     \<lparr> label = lbl,
       vlen = info_code AND max_vlen,
       is_sparse = ((info_code AND sparse_flag) > 0),
       is_vector = ((info_code AND vector_flag) > 0) \<rparr>"

text \<open>The constructor from a variable: label, \<open>GetDim(4)\<close>, \<open>IsSparse()\<close>, the Vector flag.\<close>

definition mk_VarInfo :: "string \<Rightarrow> int \<Rightarrow> bool \<Rightarrow> bool \<Rightarrow> error + VarInfo" where
  "mk_VarInfo lbl n sp vec =
     (if n \<le> 0 \<or> n > max_vlen then Inl (BadVlen lbl n)
      else Inr \<lparr> label = lbl, vlen = n, is_sparse = sp, is_vector = vec \<rparr>)"

definition get_info_code :: "VarInfo \<Rightarrow> int" where
  "get_info_code v =
     (let code = vlen v;
          code = (if is_sparse v then code + sparse_flag else code);
          code = (if is_vector v then code + vector_flag else code)
      in code)"

text \<open>
  \<open>operator<\<close>, the comparison \<open>std::set<VarInfo>\<close> orders by: it fails when the two
  labels agree and the lengths differ, and compares the labels (\<open>std::string\<close>, byte by
  byte) otherwise.
\<close>

definition less_VarInfo :: "VarInfo \<Rightarrow> VarInfo \<Rightarrow> error + bool" where
  "less_VarInfo a other =
     (if label a = label other \<and> vlen a \<noteq> vlen other then Inl (MultipleLengths (label a))
      else Inr (label a < label other))"

text \<open>
  \<open>std::set<VarInfo>\<close> is modelled by the list of its elements in iteration order.
  \<open>insert\<close> looks for the place of the new element with \<open>operator<\<close>: the new element goes
  before the first element it is less than, and it is dropped when an element is met that
  is neither less nor greater (the set keeps the element it already has).  The tree of the
  library compares the new element with the elements on its search path only; that path
  ends at the element with the same label when there is one, and elements with another
  label never make \<open>operator<\<close> fail, so the walk along the list fails exactly when the
  tree search does.
\<close>

fun set_insert :: "VarInfo \<Rightarrow> VarInfo list \<Rightarrow> error + VarInfo list" where
  "set_insert x [] = Inr [x]"
| "set_insert x (y # ys) =
     (case less_VarInfo x y of
        Inl err \<Rightarrow> Inl err
      | Inr True \<Rightarrow> Inr (x # y # ys)
      | Inr False \<Rightarrow>
          (case less_VarInfo y x of
             Inl err \<Rightarrow> Inl err
           | Inr True \<Rightarrow>
               (case set_insert x ys of Inl err \<Rightarrow> Inl err | Inr zs \<Rightarrow> Inr (y # zs))
           | Inr False \<Rightarrow> Inr (y # ys)))"

text \<open>A list stands for a \<open>std::set<VarInfo>\<close> when its labels strictly increase.\<close>

definition wf_set :: "VarInfo list \<Rightarrow> bool" where
  "wf_set S = sorted_wrt (<) (map label S)"

section \<open>parthenon\_hdf5.cpp: the local list of unique variables\<close>

text \<open>
  What the writer reads of a \<open>CellVariable\<close>: its label, \<open>GetDim(4)\<close>, the sparse and
  vector flags and the data, indexed by \<open>(l, k, j, i)\<close>.  A block is the list \<open>ci.vars\<close>
  that \<open>get_MeshBlockDataIterator\<close> gives for it.
\<close>

record CellVariable =
  cv_label :: string
  cv_dim4 :: int
  cv_sparse :: bool
  cv_vector :: bool
  cv_data :: "nat \<times> int \<times> int \<times> int \<Rightarrow> real"

type_synonym MeshBlock = "CellVariable list"

fun insert_vars :: "CellVariable list \<Rightarrow> VarInfo list \<Rightarrow> error + VarInfo list" where
  "insert_vars [] all_unique_vars = Inr all_unique_vars"
| "insert_vars (v # vs) all_unique_vars =
     (case mk_VarInfo (cv_label v) (cv_dim4 v) (cv_sparse v) (cv_vector v) of
        Inl err \<Rightarrow> Inl err
      | Inr vinfo \<Rightarrow>
          (case set_insert vinfo all_unique_vars of
             Inl err \<Rightarrow> Inl err
           | Inr vars' \<Rightarrow> insert_vars vs vars'))"

fun local_unique_vars :: "MeshBlock list \<Rightarrow> VarInfo list \<Rightarrow> error + VarInfo list" where
  "local_unique_vars [] all_unique_vars = Inr all_unique_vars"
| "local_unique_vars (pmb # block_list) all_unique_vars =
     (case insert_vars pmb all_unique_vars of
        Inl err \<Rightarrow> Inl err
      | Inr vars' \<Rightarrow> local_unique_vars block_list vars')"

section \<open>parthenon\_hdf5.cpp: reconciliation across ranks\<close>

definition tab :: char where
  "tab = CHR 0x09"

text \<open>
  A label the buffer can carry: not empty, without the separator and without a NUL byte.
\<close>

definition valid_label :: "string \<Rightarrow> bool" where
  "valid_label l \<longleftrightarrow> l \<noteq> [] \<and> tab \<notin> set l \<and> CHR 0x00 \<notin> set l"

definition label_buffer :: "VarInfo list \<Rightarrow> string" where
  "label_buffer all_unique_vars = concat (map (\<lambda>vi. label vi @ [tab]) all_unique_vars)"

definition code_buffer :: "VarInfo list \<Rightarrow> int list" where
  "code_buffer all_unique_vars = map get_info_code all_unique_vars"

text \<open>
  The two \<open>MPI_Allgatherv\<close> calls leave on every rank the buffers of all ranks, one after
  the other in rank order.
\<close>

definition all_labels_buffer :: "VarInfo list list \<Rightarrow> string" where
  "all_labels_buffer ranks = concat (map label_buffer ranks)"

definition all_codes :: "VarInfo list list \<Rightarrow> int list" where
  "all_codes ranks = concat (map code_buffer ranks)"

text \<open>
  \<open>strchr\<close> reads the memory from the pointer on, byte by byte: it gives the offset of the
  first occurrence of the character, and a null pointer (\<open>None\<close>) when a NUL byte comes
  first.  The list is the memory from the pointer on; a read past the last byte of the
  list leaves the memory the model holds and is an error of the model.
\<close>

fun strchr :: "string \<Rightarrow> char \<Rightarrow> error + nat option" where
  "strchr [] c = Inl OutOfRange"
| "strchr (x # xs) c =
     (if x = c then Inr (Some 0)
      else if x = CHR 0x00 then Inr None
      else (case strchr xs c of
              Inl err \<Rightarrow> Inl err
            | Inr None \<Rightarrow> Inr None
            | Inr (Some n) \<Rightarrow> Inr (Some (Suc n))))"

text \<open>
  The loop that unpacks the labels.  \<open>all_labels_buffer\<close> is a \<open>std::vector<char>\<close> of
  the gathered bytes, with no NUL byte after them: \<open>cur\<close> is the buffer from \<open>curr\<close> to
  \<open>end\<close>, and \<open>after\<close> is the memory that follows the buffer, which \<open>strchr\<close> reads when
  it meets neither a tab nor a NUL byte before \<open>end\<close>.  A tab found past \<open>end\<close> gives a
  label that runs on into that memory, and leaves \<open>curr\<close> past \<open>end\<close>, which ends the loop.
\<close>

function unpack_labels :: "string \<Rightarrow> string \<Rightarrow> string list \<Rightarrow> error + string list" where
  "unpack_labels after cur all_labels =
     (if cur \<noteq> [] then
        (case strchr (cur @ after) tab of
           Inl err \<Rightarrow> Inl err
         | Inr None \<Rightarrow> Inl NoTerminatingTab
         | Inr (Some n) \<Rightarrow>
             if n = 0 then Inl EmptyLabel
             else unpack_labels after (drop (n + 1) cur)
                    (all_labels @ [take n (cur @ after)]))
      else Inr all_labels)"
  by pat_completeness auto
termination
  by (relation "measure (\<lambda>(after, cur, all_labels). length cur)") auto

declare unpack_labels.simps [simp del]

fun insert_decoded :: "(string \<times> int) list \<Rightarrow> VarInfo list \<Rightarrow> error + VarInfo list" where
  "insert_decoded [] all_unique_vars = Inr all_unique_vars"
| "insert_decoded ((lbl, code) # rest) all_unique_vars =
     (case set_insert (Decode lbl code) all_unique_vars of
        Inl err \<Rightarrow> Inl err
      | Inr vars' \<Rightarrow> insert_decoded rest vars')"

text \<open>
  The \<open>MPI_PARALLEL\<close> block on one rank: \<open>all_unique_vars\<close> is the rank's own set, \<open>ranks\<close>
  the sets of all ranks in rank order, \<open>after\<close> the memory that follows the gathered
  label buffer.
\<close>

definition reconcile ::
  "string \<Rightarrow> VarInfo list \<Rightarrow> VarInfo list list \<Rightarrow> error + VarInfo list" where
  "reconcile after all_unique_vars ranks =
     (case unpack_labels after (all_labels_buffer ranks) [] of
        Inl err \<Rightarrow> Inl err
      | Inr all_labels \<Rightarrow>
          if length all_labels \<noteq> length (all_codes ranks)
          then Inl (DifferentSizes (length all_labels) (length (all_codes ranks)))
          else insert_decoded (zip all_labels (all_codes ranks)) all_unique_vars)"

section \<open>parthenon\_hdf5.cpp: the offset of a rank\<close>

text \<open>
  \<open>my_offset\<close> is an \<open>hsize_t\<close>, an unsigned 64-bit integer; the block counts are \<open>int\<close>s,
  converted to \<open>hsize_t\<close> when they are added.  Reading \<open>nblist\<close> past its end is an error
  of the model.
\<close>

type_synonym hsize_t = "64 word"

function offset_loop :: "int list \<Rightarrow> nat \<Rightarrow> nat \<Rightarrow> hsize_t \<Rightarrow> error + hsize_t" where
  "offset_loop nblist my_rank i my_offset =
     (if i < my_rank then
        (if i < length nblist
         then offset_loop nblist my_rank (i + 1) (my_offset + word_of_int (nblist ! i))
         else Inl OutOfRange)
      else Inr my_offset)"
  by pat_completeness auto
termination
  by (relation "measure (\<lambda>(nblist, my_rank, i, my_offset). my_rank - i)") auto

declare offset_loop.simps [simp del]

definition local_offset :: "int list \<Rightarrow> nat \<Rightarrow> error + hsize_t list" where
  "local_offset nblist my_rank =
     (case offset_loop nblist my_rank 0 0 of
        Inl err \<Rightarrow> Inl err
      | Inr my_offset \<Rightarrow> Inr [my_offset, 0, 0, 0, 0])"

section \<open>parthenon\_hdf5.cpp: packing the write buffer\<close>

record IndexRange =
  range_s :: int
  range_e :: int

text \<open>
  \<open>sparse_names\<close> and \<open>sparse_field_idx\<close>: the sparse variables in the order of the set;
  \<open>insert\<close> on the \<open>unordered_map\<close> keeps the entry a key already has.
\<close>

fun sparse_fields ::
  "VarInfo list \<Rightarrow> string list \<Rightarrow> (string \<rightharpoonup> nat) \<Rightarrow> string list \<times> (string \<rightharpoonup> nat)" where
  "sparse_fields [] sparse_names sparse_field_idx = (sparse_names, sparse_field_idx)"
| "sparse_fields (vinfo # rest) sparse_names sparse_field_idx =
     (if is_sparse vinfo then
        sparse_fields rest (sparse_names @ [label vinfo])
          (if sparse_field_idx (label vinfo) = None
           then sparse_field_idx(label vinfo \<mapsto> length sparse_names)
           else sparse_field_idx)
      else sparse_fields rest sparse_names sparse_field_idx)"

definition vlen_max_of :: "VarInfo list \<Rightarrow> int" where
  "vlen_max_of all_unique_vars = foldl (\<lambda>vlen_max vinfo. max vlen_max (vlen vinfo)) 0 all_unique_vars"

definition varSize_of :: "IndexRange \<Rightarrow> IndexRange \<Rightarrow> IndexRange \<Rightarrow> nat" where
  "varSize_of out_kb out_jb out_ib =
     (let nx1 = range_e out_ib - range_s out_ib + 1;
          nx2 = range_e out_jb - range_s out_jb + 1;
          nx3 = range_e out_kb - range_s out_kb + 1
      in nat (nx3 * nx2 * nx1))"

text \<open>
  \<open>tmpData[index++] = x\<close> for the values of a list, one after the other.  A store past
  the end of the buffer is an error of the model.
\<close>

fun store_seq :: "real list \<Rightarrow> nat \<Rightarrow> real list \<Rightarrow> error + real list \<times> nat" where
  "store_seq buf idx [] = Inr (buf, idx)"
| "store_seq buf idx (x # xs) =
     (if idx < length buf then store_seq (buf[idx := x]) (idx + 1) xs else Inl OutOfRange)"

text \<open>
  The four nested loops over \<open>k\<close>, \<open>j\<close>, \<open>i\<close> and \<open>l\<close> read the values in this order;
  \<open>cast\<close> is the conversion to the output type.
\<close>

definition copy_values ::
  "(real \<Rightarrow> real) \<Rightarrow> CellVariable \<Rightarrow> IndexRange \<Rightarrow> IndexRange \<Rightarrow> IndexRange \<Rightarrow> nat \<Rightarrow> real list" where
  "copy_values cast v out_kb out_jb out_ib n =
     [cast (cv_data v (l, k, j, i)).
        k \<leftarrow> [range_s out_kb..range_e out_kb],
        j \<leftarrow> [range_s out_jb..range_e out_jb],
        i \<leftarrow> [range_s out_ib..range_e out_ib],
        l \<leftarrow> [0..<n]]"

record pack_state =
  tmpData :: "real list"
  index :: nat
  sparse_expanded :: "bool list"
  found_any :: bool

text \<open>
  The body of the loop over the local blocks, for the variable \<open>vinfo\<close> and the block
  \<open>pmb\<close> with index \<open>b_idx\<close>.  \<open>vlen\<close> is read as an \<open>hsize_t\<close>; it is positive for every
  \<open>VarInfo\<close> of the constructor.
\<close>

definition pack_block ::
  "(real \<Rightarrow> real) \<Rightarrow> IndexRange \<Rightarrow> IndexRange \<Rightarrow> IndexRange \<Rightarrow> (string \<rightharpoonup> nat) \<Rightarrow> nat \<Rightarrow>
   VarInfo \<Rightarrow> nat \<Rightarrow> MeshBlock \<Rightarrow> pack_state \<Rightarrow> error + pack_state" where
  "pack_block cast out_kb out_jb out_ib sparse_field_idx num_sparse vinfo b_idx pmb st =
     (let var_name = label vinfo;
          n = nat (vlen vinfo);
          hit = find (\<lambda>v. var_name = cv_label v) pmb;
          found = (hit \<noteq> None)
      in case (case hit of
                 Some v \<Rightarrow> store_seq (tmpData st) (index st)
                             (copy_values cast v out_kb out_jb out_ib n)
               | None \<Rightarrow> Inr (tmpData st, index st)) of
           Inl err \<Rightarrow> Inl err
         | Inr (buf, idx) \<Rightarrow>
             (case (if is_sparse vinfo then
                      (case sparse_field_idx (label vinfo) of
                         None \<Rightarrow> Inl OutOfRange
                       | Some sparse_idx \<Rightarrow>
                           if b_idx * num_sparse + sparse_idx < length (sparse_expanded st)
                           then Inr ((sparse_expanded st)
                                       [b_idx * num_sparse + sparse_idx := found])
                           else Inl OutOfRange)
                    else Inr (sparse_expanded st)) of
                Inl err \<Rightarrow> Inl err
              | Inr expanded \<Rightarrow>
                  if \<not> found then
                    (if is_sparse vinfo then
                       (let N = varSize_of out_kb out_jb out_ib * n
                        in case store_seq buf idx (replicate N 0) of
                             Inl err \<Rightarrow> Inl err
                           | Inr (buf', idx') \<Rightarrow>
                               Inr \<lparr> tmpData = buf', index = idx + N,
                                     sparse_expanded = expanded, found_any = found_any st \<rparr>)
                     else Inl (DenseMissing var_name))
                  else Inr \<lparr> tmpData = buf, index = idx,
                             sparse_expanded = expanded, found_any = True \<rparr>))"

fun pack_blocks ::
  "(real \<Rightarrow> real) \<Rightarrow> IndexRange \<Rightarrow> IndexRange \<Rightarrow> IndexRange \<Rightarrow> (string \<rightharpoonup> nat) \<Rightarrow> nat \<Rightarrow>
   VarInfo \<Rightarrow> nat \<Rightarrow> MeshBlock list \<Rightarrow> pack_state \<Rightarrow> error + pack_state" where
  "pack_blocks cast out_kb out_jb out_ib sparse_field_idx num_sparse vinfo b_idx [] st = Inr st"
| "pack_blocks cast out_kb out_jb out_ib sparse_field_idx num_sparse vinfo b_idx (pmb # rest) st =
     (case pack_block cast out_kb out_jb out_ib sparse_field_idx num_sparse vinfo b_idx pmb st of
        Inl err \<Rightarrow> Inl err
      | Inr st' \<Rightarrow>
          pack_blocks cast out_kb out_jb out_ib sparse_field_idx num_sparse vinfo
            (b_idx + 1) rest st')"

text \<open>
  One turn of the loop over the variables, up to the write: the buffer is set to zero, the
  index and \<open>found_any\<close> start afresh, the blocks are packed.
\<close>

definition pack_variable ::
  "(real \<Rightarrow> real) \<Rightarrow> IndexRange \<Rightarrow> IndexRange \<Rightarrow> IndexRange \<Rightarrow> (string \<rightharpoonup> nat) \<Rightarrow> nat \<Rightarrow>
   nat \<Rightarrow> MeshBlock list \<Rightarrow> VarInfo \<Rightarrow> bool list \<Rightarrow> error + pack_state" where
  "pack_variable cast out_kb out_jb out_ib sparse_field_idx num_sparse tmp_size block_list
     vinfo expanded =
     pack_blocks cast out_kb out_jb out_ib sparse_field_idx num_sparse vinfo 0 block_list
       \<lparr> tmpData = replicate tmp_size 0, index = 0,
         sparse_expanded = expanded, found_any = False \<rparr>"

text \<open>
  The loop over the variables.  The model returns the sparse table and the calls of
  \<open>HDF5WriteND\<close>, each with the name of the variable and the buffer it writes.
\<close>

fun write_vars ::
  "(real \<Rightarrow> real) \<Rightarrow> IndexRange \<Rightarrow> IndexRange \<Rightarrow> IndexRange \<Rightarrow> (string \<rightharpoonup> nat) \<Rightarrow> nat \<Rightarrow>
   nat \<Rightarrow> MeshBlock list \<Rightarrow> VarInfo list \<Rightarrow> bool list \<Rightarrow> (string \<times> real list) list \<Rightarrow>
   error + bool list \<times> (string \<times> real list) list" where
  "write_vars cast out_kb out_jb out_ib sparse_field_idx num_sparse tmp_size block_list []
     expanded writes = Inr (expanded, writes)"
| "write_vars cast out_kb out_jb out_ib sparse_field_idx num_sparse tmp_size block_list
     (vinfo # rest) expanded writes =
     (case pack_variable cast out_kb out_jb out_ib sparse_field_idx num_sparse tmp_size
             block_list vinfo expanded of
        Inl err \<Rightarrow> Inl err
      | Inr st \<Rightarrow>
          write_vars cast out_kb out_jb out_ib sparse_field_idx num_sparse tmp_size block_list
            rest (sparse_expanded st)
            (if found_any st then writes @ [(label vinfo, tmpData st)] else writes))"

text \<open>
  The section "writing variables data" on one rank, from the set of all variables on.
  The array \<open>sparse_expanded\<close> is allocated without a value; \<open>uninit\<close> gives what it holds.
\<close>

definition WriteVariables ::
  "(real \<Rightarrow> real) \<Rightarrow> IndexRange \<Rightarrow> IndexRange \<Rightarrow> IndexRange \<Rightarrow> (nat \<Rightarrow> bool) \<Rightarrow>
   MeshBlock list \<Rightarrow> VarInfo list \<Rightarrow> error + bool list \<times> (string \<times> real list) list" where
  "WriteVariables cast out_kb out_jb out_ib uninit block_list all_unique_vars =
     (let num_blocks_local = length block_list;
          (sparse_names, sparse_field_idx) = sparse_fields all_unique_vars [] Map.empty;
          num_sparse = length sparse_names;
          varSize = varSize_of out_kb out_jb out_ib;
          vlen_max = vlen_max_of all_unique_vars;
          tmp_size = varSize * nat vlen_max * num_blocks_local
      in write_vars cast out_kb out_jb out_ib sparse_field_idx num_sparse tmp_size block_list
           all_unique_vars (map uninit [0..<num_blocks_local * num_sparse]) [])"

text \<open>
  For the statements about the packing: whether a block has a variable of a given name,
  and the number of values of one block in the buffer.
\<close>

definition has_variable :: "string \<Rightarrow> MeshBlock \<Rightarrow> bool" where
  "has_variable var_name pmb \<longleftrightarrow> (\<exists>v\<in>set pmb. var_name = cv_label v)"

definition block_values :: "IndexRange \<Rightarrow> IndexRange \<Rightarrow> IndexRange \<Rightarrow> VarInfo \<Rightarrow> nat" where
  "block_values out_kb out_jb out_ib vinfo = varSize_of out_kb out_jb out_ib * nat (vlen vinfo)"

section \<open>boundary\_conditions.cpp: the fill kernel\<close>

datatype CoordinateDirection = NODIR | X0DIR | X1DIR | X2DIR | X3DIR

datatype BCSide = Inner | Outer

datatype BCType = Outflow | Reflect

record IndexShape =
  GetBoundsI :: IndexRange
  GetBoundsJ :: IndexRange
  GetBoundsK :: IndexRange

text \<open>
  The variable pack \<open>q\<close> maps \<open>(l, k, j, i)\<close> to a value.  The kernel multiplies by \<open>1.0\<close>
  or \<open>-1.0\<close>, which is exact on floating-point numbers, so the values are modelled as
  reals.
\<close>

type_synonym VariablePack = "nat \<times> int \<times> int \<times> int \<Rightarrow> real"

text \<open>
  Modelled from the spec: \<open>par_for_bndry\<close>, which is declared with the mesh block and is
  missing here.  It runs the kernel once for every variable index \<open>a\<close> of \<open>nb\<close> and every
  cell \<open>(k, j, i)\<close> of the ghost region of the face.  The iteration space is the list
  \<open>iters\<close>, in any order.
\<close>

definition par_for_bndry ::
  "(nat \<times> int \<times> int \<times> int) list \<Rightarrow> (nat \<Rightarrow> int \<Rightarrow> int \<Rightarrow> int \<Rightarrow> VariablePack \<Rightarrow> VariablePack) \<Rightarrow>
   VariablePack \<Rightarrow> VariablePack" where
  "par_for_bndry iters body q = foldl (\<lambda>q' (a, k, j, i). body a k j i q') q iters"

text \<open>
  The body of the lambda of \<open>GenericBC\<close>, with the variables it captures: the
  template parameters \<open>DIR\<close> and \<open>TYPE\<close>, \<open>ref\<close>, \<open>offset\<close>, the pack and its
  allocated indices.
\<close>

definition GenericBC_kernel ::
  "CoordinateDirection \<Rightarrow> BCType \<Rightarrow> int \<Rightarrow> int \<Rightarrow> (nat \<Rightarrow> CoordinateDirection) \<Rightarrow>
   (nat \<Rightarrow> nat) \<Rightarrow> nat \<Rightarrow> int \<Rightarrow> int \<Rightarrow> int \<Rightarrow> VariablePack \<Rightarrow> VariablePack" where
  "GenericBC_kernel DIR BC_TYPE ref offset VectorComponent GetVarIdx a k j i q =
     (let X1 = (DIR = X1DIR);
          X2 = (DIR = X2DIR);
          X3 = (DIR = X3DIR);
          l = GetVarIdx a
      in if BC_TYPE = Reflect then
           (let reflect = (VectorComponent l = DIR)
            in q((l, k, j, i) :=
                 (if reflect then - 1 else 1) *
                 q (l, if X3 then offset - k else k,
                       if X2 then offset - j else j,
                       if X1 then offset - i else i)))
         else
           q((l, k, j, i) :=
             q (l, if X3 then ref else k, if X2 then ref else j, if X1 then ref else i)))"

text \<open>
  \<open>GenericBC<DIR, SIDE, TYPE>\<close>.  \<open>c_cellbounds\<close> and \<open>cellbounds\<close> hold the interior
  bounds of the coarse and of the fine index space, \<open>VectorComponent\<close> and \<open>GetVarIdx\<close> are
  the ones of the pack and of its allocated indices.  The \<open>static_assert\<close> admits the
  directions \<open>X1DIR\<close>, \<open>X2DIR\<close> and \<open>X3DIR\<close> only.
\<close>

definition GenericBC ::
  "CoordinateDirection \<Rightarrow> BCSide \<Rightarrow> BCType \<Rightarrow> IndexShape \<Rightarrow> IndexShape \<Rightarrow>
   (nat \<Rightarrow> CoordinateDirection) \<Rightarrow> (nat \<Rightarrow> nat) \<Rightarrow> (nat \<times> int \<times> int \<times> int) list \<Rightarrow>
   VariablePack \<Rightarrow> bool \<Rightarrow> VariablePack" where
  "GenericBC DIR SIDE BC_TYPE c_cellbounds cellbounds VectorComponent GetVarIdx iters q coarse =
     (let X1 = (DIR = X1DIR);
          X2 = (DIR = X2DIR);
          INNER = (SIDE = Inner);
          bounds = (if coarse then c_cellbounds else cellbounds);
          range = (if X1 then GetBoundsI bounds
                   else if X2 then GetBoundsJ bounds else GetBoundsK bounds);
          ref = (if INNER then range_s range else range_e range);
          offset = 2 * ref + (if INNER then - 1 else 1)
      in par_for_bndry iters
           (GenericBC_kernel DIR BC_TYPE ref offset VectorComponent GetVarIdx) q)"

text \<open>
  For the statements about the fill: the index of a cell along the direction of the face,
  the interior range in that direction, and the ghost side of the face, below the
  interior for the inner side and above it for the outer side.
\<close>

definition dir_index :: "CoordinateDirection \<Rightarrow> int \<Rightarrow> int \<Rightarrow> int \<Rightarrow> int" where
  "dir_index DIR k j i = (if DIR = X1DIR then i else if DIR = X2DIR then j else k)"

definition interior_range :: "CoordinateDirection \<Rightarrow> IndexShape \<Rightarrow> IndexRange" where
  "interior_range DIR bounds =
     (if DIR = X1DIR then GetBoundsI bounds
      else if DIR = X2DIR then GetBoundsJ bounds else GetBoundsK bounds)"

definition in_ghost_region :: "BCSide \<Rightarrow> IndexRange \<Rightarrow> int \<Rightarrow> bool" where
  "in_ghost_region SIDE rng idx =
     (if SIDE = Inner then idx < range_s rng else range_e rng < idx)"

text \<open>
  What the kernel stores in a cell: the reference index and the offset of the face, the
  cell the value is read from, and the value stored, given the value read.
\<close>

definition bc_ref :: "BCSide \<Rightarrow> IndexRange \<Rightarrow> int" where
  "bc_ref SIDE rng = (if SIDE = Inner then range_s rng else range_e rng)"

definition bc_offset :: "BCSide \<Rightarrow> IndexRange \<Rightarrow> int" where
  "bc_offset SIDE rng =
     (if SIDE = Inner then 2 * range_s rng - 1 else 2 * range_e rng + 1)"

definition bc_source ::
  "CoordinateDirection \<Rightarrow> BCSide \<Rightarrow> BCType \<Rightarrow> IndexRange \<Rightarrow> nat \<times> int \<times> int \<times> int \<Rightarrow>
   nat \<times> int \<times> int \<times> int" where
  "bc_source DIR SIDE BC_TYPE rng c =
     (case c of (l, k, j, i) \<Rightarrow>
        let t = (\<lambda>idx. if BC_TYPE = Reflect then bc_offset SIDE rng - idx
                       else bc_ref SIDE rng)
        in (l, if DIR = X3DIR then t k else k, if DIR = X2DIR then t j else j,
               if DIR = X1DIR then t i else i))"

definition bc_value ::
  "CoordinateDirection \<Rightarrow> BCType \<Rightarrow> (nat \<Rightarrow> CoordinateDirection) \<Rightarrow> nat \<times> int \<times> int \<times> int \<Rightarrow>
   real \<Rightarrow> real" where
  "bc_value DIR BC_TYPE VectorComponent c v =
     (if BC_TYPE = Reflect \<and> VectorComponent (fst c) = DIR then - v else v)"

section \<open>Theorems\<close>

subsection \<open>The dispatch gate\<close>

lemma DoPhysicalBoundary_iff:
  "DoPhysicalBoundary flag face ndim \<longleftrightarrow>
     flag \<noteq> block \<and> flag \<noteq> periodic \<and> flag \<noteq> undef \<and>
     \<not> (ndim < 3 \<and> (face = inner_x3 \<or> face = outer_x3)) \<and>
     \<not> (ndim < 2 \<and> (face = inner_x2 \<or> face = outer_x2))"
  by (auto simp add: DoPhysicalBoundary_def)

lemma apply_faces_trace:
  assumes "\<forall>j. i \<le> j \<longrightarrow> j < BOUNDARY_NFACES \<longrightarrow>
             DoPhysicalBoundary (bf j) (BoundaryFace_of j) ndim \<longrightarrow> fn j = Some (F j)"
  shows "apply_faces bf fn ndim coarse i rc called =
           Inr (foldl (\<lambda>rc' j. F j rc' coarse) rc
                  (filter (\<lambda>j. DoPhysicalBoundary (bf j) (BoundaryFace_of j) ndim)
                     [i..<BOUNDARY_NFACES]),
                called @
                  filter (\<lambda>j. DoPhysicalBoundary (bf j) (BoundaryFace_of j) ndim)
                    [i..<BOUNDARY_NFACES])"
  using assms
proof (induction bf fn ndim coarse i rc called rule: apply_faces.induct)
  case (1 bf fn ndim coarse i rc called)
  show ?case
  proof (cases "i < BOUNDARY_NFACES")
    case False
    then show ?thesis by (simp add: apply_faces.simps [of bf fn ndim coarse i])
  next
    case lt: True
    then have up: "[i..<BOUNDARY_NFACES] = i # [i + 1..<BOUNDARY_NFACES]"
      by (simp add: upt_conv_Cons)
    have nxt: "\<forall>j. i + 1 \<le> j \<longrightarrow> j < BOUNDARY_NFACES \<longrightarrow>
           DoPhysicalBoundary (bf j) (BoundaryFace_of j) ndim \<longrightarrow> fn j = Some (F j)"
      using "1.prems" by auto
    show ?thesis
    proof (cases "DoPhysicalBoundary (bf i) (BoundaryFace_of i) ndim")
      case do: True
      with lt "1.prems" have f: "fn i = Some (F i)"
        by auto
      have "apply_faces bf fn ndim coarse (i + 1) (F i rc coarse) (called @ [i]) =
              Inr (foldl (\<lambda>rc' j. F j rc' coarse) (F i rc coarse)
                     (filter (\<lambda>j. DoPhysicalBoundary (bf j) (BoundaryFace_of j) ndim)
                        [i + 1..<BOUNDARY_NFACES]),
                   (called @ [i]) @
                     filter (\<lambda>j. DoPhysicalBoundary (bf j) (BoundaryFace_of j) ndim)
                       [i + 1..<BOUNDARY_NFACES])"
        by (rule "1.IH"(1) [OF lt do f nxt])
      then show ?thesis
        using lt do f up by (simp add: apply_faces.simps [of bf fn ndim coarse i])
    next
      case no: False
      have "apply_faces bf fn ndim coarse (i + 1) rc called =
              Inr (foldl (\<lambda>rc' j. F j rc' coarse) rc
                     (filter (\<lambda>j. DoPhysicalBoundary (bf j) (BoundaryFace_of j) ndim)
                        [i + 1..<BOUNDARY_NFACES]),
                   called @
                     filter (\<lambda>j. DoPhysicalBoundary (bf j) (BoundaryFace_of j) ndim)
                       [i + 1..<BOUNDARY_NFACES])"
        by (rule "1.IH"(2) [OF lt no nxt])
      then show ?thesis
        using lt no up by (simp add: apply_faces.simps [of bf fn ndim coarse i])
    qed
  qed
qed

text \<open>
  C8: the dispatcher calls the boundary function of a face if and only if the flag of the
  face is none of block, periodic and undefined and the face is valid for the number of
  dimensions: no x3 face below three dimensions, no x2 face below two, whatever flag is
  registered.  With \<open>F j\<close> the function registered for a face \<open>j\<close> that qualifies, the
  block data the dispatcher returns is the data it was given with the functions of the
  qualifying faces applied to it, each once, in the order of the faces and with the same
  \<open>coarse\<close>; the functions of the other faces are not applied.
\<close>

theorem dispatch_gate:
  assumes "\<forall>j<BOUNDARY_NFACES.
             DoPhysicalBoundary (boundary_flag j) (BoundaryFace_of j) ndim \<longrightarrow>
             MeshBndryFnctn j = Some (F j)"
  shows "\<exists>called.
           ApplyBoundaryConditionsOnCoarseOrFine boundary_flag MeshBndryFnctn ndim rc coarse =
             Inr (foldl (\<lambda>rc' i. F i rc' coarse) rc called, called) \<and>
           called = filter (\<lambda>i. DoPhysicalBoundary (boundary_flag i) (BoundaryFace_of i) ndim)
                      [0..<BOUNDARY_NFACES] \<and>
           (\<forall>i<BOUNDARY_NFACES.
              i \<in> set called \<longleftrightarrow>
                (boundary_flag i \<noteq> block \<and> boundary_flag i \<noteq> periodic \<and>
                 boundary_flag i \<noteq> undef \<and>
                 \<not> (ndim < 3 \<and> (BoundaryFace_of i = inner_x3 \<or> BoundaryFace_of i = outer_x3)) \<and>
                 \<not> (ndim < 2 \<and> (BoundaryFace_of i = inner_x2 \<or> BoundaryFace_of i = outer_x2))))"
proof -
  let ?called = "filter (\<lambda>i. DoPhysicalBoundary (boundary_flag i) (BoundaryFace_of i) ndim)
                   [0..<BOUNDARY_NFACES]"
  from assms have "\<forall>j. 0 \<le> j \<longrightarrow> j < BOUNDARY_NFACES \<longrightarrow>
      DoPhysicalBoundary (boundary_flag j) (BoundaryFace_of j) ndim \<longrightarrow>
      MeshBndryFnctn j = Some (F j)"
    by blast
  from apply_faces_trace [OF this, of coarse rc "[]"]
  have r: "ApplyBoundaryConditionsOnCoarseOrFine boundary_flag MeshBndryFnctn ndim rc coarse =
      Inr (foldl (\<lambda>rc' i. F i rc' coarse) rc ?called, ?called)"
    by (simp add: ApplyBoundaryConditionsOnCoarseOrFine_def)
  have m: "\<forall>i<BOUNDARY_NFACES.
              i \<in> set ?called \<longleftrightarrow>
                (boundary_flag i \<noteq> block \<and> boundary_flag i \<noteq> periodic \<and>
                 boundary_flag i \<noteq> undef \<and>
                 \<not> (ndim < 3 \<and> (BoundaryFace_of i = inner_x3 \<or> BoundaryFace_of i = outer_x3)) \<and>
                 \<not> (ndim < 2 \<and> (BoundaryFace_of i = inner_x2 \<or> BoundaryFace_of i = outer_x2)))"
    by (simp add: DoPhysicalBoundary_iff)
  show ?thesis
    by (rule exI [where x = ?called], intro conjI, rule r, rule refl, rule m)
qed

theorem dispatch_gate_witness:
  "ApplyBoundaryConditionsOnCoarseOrFine (\<lambda>i. if i = 1 then periodic else reflect)
     (\<lambda>i. Some (\<lambda>s c. i # s)) 2 ([] :: nat list) False = Inr ([3, 2, 0], [0, 2, 3])"
proof -
  have h: "\<forall>j<BOUNDARY_NFACES.
             DoPhysicalBoundary ((\<lambda>i. if i = 1 then periodic else reflect) j)
               (BoundaryFace_of j) 2 \<longrightarrow>
             (\<lambda>i. Some (\<lambda>(s :: nat list) (c :: bool). i # s)) j =
               Some ((\<lambda>i (s :: nat list) (c :: bool). i # s) j)"
    by simp
  have u: "[0..<BOUNDARY_NFACES] = [0, 1, 2, 3, 4, 5]"
    by (simp add: BOUNDARY_NFACES_def upt_rec)
  have c: "filter (\<lambda>i. DoPhysicalBoundary ((\<lambda>i. if i = 1 then periodic else reflect) i)
                          (BoundaryFace_of i) 2) [0..<BOUNDARY_NFACES] = [0, 2, 3]"
    unfolding u by (simp add: DoPhysicalBoundary_def BoundaryFace_of_def)
  from dispatch_gate [OF h, of "[]" False]
  obtain called where
    r: "ApplyBoundaryConditionsOnCoarseOrFine (\<lambda>i. if i = 1 then periodic else reflect)
          (\<lambda>i. Some (\<lambda>s c. i # s)) 2 ([] :: nat list) False =
        Inr (foldl (\<lambda>rc' i. i # rc') [] called, called)"
    and "called = filter (\<lambda>i. DoPhysicalBoundary ((\<lambda>i. if i = 1 then periodic else reflect) i)
                          (BoundaryFace_of i) 2) [0..<BOUNDARY_NFACES]"
    by blast
  with c have "called = [0, 2, 3]" by simp
  with r show ?thesis by simp
qed

subsection \<open>The info code\<close>

lemma low16: "0 \<le> n \<Longrightarrow> n \<le> 65535 \<Longrightarrow> (n + k * 65536) AND max_vlen = (n::int)"
proof -
  assume a: "0 \<le> n" "n \<le> 65535"
  have "max_vlen = mask 16" by (simp add: max_vlen_def mask_eq_exp_minus_1)
  then have "(n + k * 65536) AND max_vlen = take_bit 16 (n + k * 65536)"
    by (simp add: take_bit_eq_mask)
  also have "\<dots> = (n + k * 65536) mod 65536" by (simp add: take_bit_eq_mod)
  also have "\<dots> = n" using a by simp
  finally show ?thesis .
qed

lemma and_flag_pos: "0 < (c::int) AND push_bit m 1 \<longleftrightarrow> bit c m"
proof -
  have "c AND push_bit m 1 = (if bit c m then 2 ^ m else 0)"
    by (rule bit_eqI) (auto simp add: bit_simps)
  then show ?thesis by simp
qed

lemma bit20: 
  assumes "0 \<le> n" "n \<le> 65535"
  shows "bit (n + a * 1048576 :: int) 20 = odd a"
proof -
  have "(n + a * 1048576) div 1048576 = a" using assms by simp
  then show ?thesis by (simp add: bit_iff_odd)
qed

lemma bit21: 
  assumes "0 \<le> n" "n \<le> 1114111"
  shows "bit (n + a * 2097152 :: int) 21 = odd a"
proof -
  have "(n + a * 2097152) div 2097152 = a" using assms by simp
  then show ?thesis by (simp add: bit_iff_odd)
qed

lemma info_code_parts:
  assumes "1 \<le> vlen v" "vlen v \<le> 65535"
  shows "get_info_code v AND max_vlen = vlen v"
    and "bit (get_info_code v) 20 = is_sparse v"
    and "bit (get_info_code v) 21 = is_vector v"
proof -
  define s :: int where "s = (if is_sparse v then 1 else 0)"
  define t :: int where "t = (if is_vector v then 1 else 0)"
  have c: "get_info_code v = vlen v + s * 1048576 + t * 2097152"
    by (simp add: get_info_code_def s_def t_def sparse_flag_def vector_flag_def)
  have c16: "get_info_code v = vlen v + (s * 16 + t * 32) * 65536"
    unfolding c by simp
  have c20: "get_info_code v = vlen v + (s + t * 2) * 1048576"
    unfolding c by simp
  have c21: "get_info_code v = (vlen v + s * 1048576) + t * 2097152"
    unfolding c by simp
  show "get_info_code v AND max_vlen = vlen v"
    unfolding c16 using assms by (intro low16) auto
  show "bit (get_info_code v) 20 = is_sparse v"
    unfolding c20 using assms by (subst bit20) (auto simp: s_def t_def)
  show "bit (get_info_code v) 21 = is_vector v"
    unfolding c21 using assms by (subst bit21) (auto simp: s_def t_def)
qed

lemma Decode_flags:
  "is_sparse (Decode l c) = bit c 20" "is_vector (Decode l c) = bit c 21"
  "vlen (Decode l c) = take_bit 16 c" "label (Decode l c) = l"
  using and_flag_pos [of c 20] and_flag_pos [of c 21]
  by (simp_all add: Decode_def sparse_flag_def vector_flag_def
      take_bit_eq_mask max_vlen_def mask_eq_exp_minus_1)

lemma Decode_get_info_code:
  assumes "1 \<le> vlen v" "vlen v \<le> 65535"
  shows "Decode l (get_info_code v) = v\<lparr>label := l\<rparr>"
proof -
  have "take_bit 16 (get_info_code v) = vlen v"
    using info_code_parts(1) [OF assms]
    by (simp add: take_bit_eq_mask max_vlen_def mask_eq_exp_minus_1)
  then show ?thesis
    using info_code_parts(2,3) [OF assms]
    by (intro VarInfo.equality) (simp_all add: Decode_flags)
qed

text \<open>
  C1: for every label and every descriptor whose component count lies in [1, 65535],
  whatever its sparse and vector flags, decoding the code of the descriptor gives back the
  component count and both flags; the code holds the count in its low 16 bits and the
  flags in bits 20 and 21.
\<close>

theorem encode_decode_roundtrip:
  assumes "1 \<le> vlen v" and "vlen v \<le> 65535"
  shows "vlen (Decode lbl (get_info_code v)) = vlen v \<and>
         is_sparse (Decode lbl (get_info_code v)) = is_sparse v \<and>
         is_vector (Decode lbl (get_info_code v)) = is_vector v \<and>
         label (Decode lbl (get_info_code v)) = lbl \<and>
         Decode (label v) (get_info_code v) = v \<and>
         take_bit 16 (get_info_code v) = vlen v \<and>
         bit (get_info_code v) 20 = is_sparse v \<and>
         bit (get_info_code v) 21 = is_vector v \<and>
         mk_VarInfo (label v) (vlen v) (is_sparse v) (is_vector v) = Inr v"
proof -
  have d: "Decode l (get_info_code v) = v\<lparr>label := l\<rparr>" for l
    using assms by (rule Decode_get_info_code)
  have t: "take_bit 16 (get_info_code v) = vlen v"
    using info_code_parts(1) [OF assms]
    by (simp add: take_bit_eq_mask max_vlen_def mask_eq_exp_minus_1)
  have m: "mk_VarInfo (label v) (vlen v) (is_sparse v) (is_vector v) = Inr v"
    using assms by (simp add: mk_VarInfo_def max_vlen_def)
  show ?thesis
    using info_code_parts(2,3) [OF assms] t m by (simp add: d)
qed

theorem encode_decode_roundtrip_witness:
  "Decode ''rho'' (get_info_code \<lparr>label = ''rho'', vlen = 65535, is_sparse = True, is_vector = False\<rparr>)
     = \<lparr>label = ''rho'', vlen = 65535, is_sparse = True, is_vector = False\<rparr> \<and>
   get_info_code \<lparr>label = ''rho'', vlen = 65535, is_sparse = True, is_vector = False\<rparr> = 1114111"
  using encode_decode_roundtrip
    [of "\<lparr>label = ''rho'', vlen = 65535, is_sparse = True, is_vector = False\<rparr>" "''rho''"]
  by (simp add: get_info_code_def sparse_flag_def)

subsection \<open>The set of descriptors\<close>

lemma wf_set_Cons: "wf_set (y # ys) \<longleftrightarrow> (\<forall>z\<in>set ys. label y < label z) \<and> wf_set ys"
  by (simp add: wf_set_def)

lemma less_VarInfo_simps:
  "label a < label b \<Longrightarrow> less_VarInfo a b = Inr True"
  "label b < label a \<Longrightarrow> less_VarInfo a b = Inr False"
  "label a = label b \<Longrightarrow> vlen a = vlen b \<Longrightarrow> less_VarInfo a b = Inr False"
  "label a = label b \<Longrightarrow> vlen a \<noteq> vlen b \<Longrightarrow>
     less_VarInfo a b = Inl (MultipleLengths (label a))"
  by (auto simp: less_VarInfo_def)

lemma set_insert_fresh:
  assumes "wf_set S" and "label x \<notin> label ` set S"
  shows "set_insert x S = Inr (insort_key label x S)"
  using assms
proof (induction S)
  case Nil
  then show ?case by simp
next
  case (Cons y ys)
  then have ne: "label x \<noteq> label y" and fresh: "label x \<notin> label ` set ys"
    and wf: "wf_set ys"
    by (auto simp: wf_set_Cons)
  show ?case
  proof (cases "label x < label y")
    case True
    then have "label x \<le> label y" by simp
    with True show ?thesis by (simp add: less_VarInfo_simps)
  next
    case False
    with ne have lt: "label y < label x" by auto
    then have "\<not> label x \<le> label y" by simp
    with lt show ?thesis
      using Cons.IH [OF wf fresh] by (simp add: less_VarInfo_simps)
  qed
qed

lemma set_insert_present:
  assumes "wf_set S" and "y \<in> set S" and "label x = label y"
  shows "set_insert x S =
           (if vlen x \<noteq> vlen y then Inl (MultipleLengths (label x)) else Inr S)"
  using assms
proof (induction S)
  case Nil
  then show ?case by simp
next
  case (Cons z zs)
  show ?case
  proof (cases "y = z")
    case True
    then show ?thesis using Cons.prems by (simp add: less_VarInfo_simps)
  next
    case False
    with Cons.prems have y: "y \<in> set zs" and lt: "label z < label y" and wf: "wf_set zs"
      by (auto simp: wf_set_Cons)
    with Cons.prems have "label z < label x" by simp
    then show ?thesis
      using Cons.IH [OF wf y Cons.prems(3)] by (simp add: less_VarInfo_simps)
  qed
qed

lemma wf_set_insort:
  assumes "wf_set S" and "label x \<notin> label ` set S"
  shows "wf_set (insort_key label x S)"
proof -
  have "sorted (map label (insort_key label x S))"
    using assms by (simp add: sorted_insort_key wf_set_def strict_sorted_iff)
  moreover have "distinct (map label (insort_key label x S))"
    using assms by (simp add: distinct_insort_key wf_set_def strict_sorted_iff)
  ultimately show ?thesis by (simp add: wf_set_def strict_sorted_iff)
qed

lemma set_insert_cases:
  assumes "wf_set S" and "set_insert x S = Inr S'"
  shows "wf_set S' \<and>
         (if label x \<in> label ` set S then S' = S else S' = insort_key label x S)"
proof (cases "label x \<in> label ` set S")
  case True
  then obtain y where "y \<in> set S" "label x = label y" by auto
  from set_insert_present [OF assms(1) this] assms True show ?thesis
    by (auto split: if_splits)
next
  case False
  from set_insert_fresh [OF assms(1) False] assms wf_set_insort [OF assms(1) False] False
  show ?thesis by simp
qed

lemma one_entry_per_key:
  assumes "distinct (map f xs)" and "y \<in> set xs"
  shows "length (filter (\<lambda>v. f v = f y) xs) = 1"
  using assms
proof (induction xs)
  case Nil
  then show ?case by simp
next
  case (Cons x xs)
  show ?case
  proof (cases "y = x")
    case True
    have "f x \<notin> f ` set xs"
      using Cons.prems(1) by simp
    then have "\<forall>v\<in>set xs. f v \<noteq> f x"
      by (metis imageI)
    then have "filter (\<lambda>v. f v = f x) xs = []"
      by (simp add: filter_empty_conv)
    with True show ?thesis by simp
  next
    case False
    with Cons.prems have "y \<in> set xs" "f x \<noteq> f y" by auto
    with Cons show ?thesis by simp
  qed
qed

text \<open>
  C10: two descriptors with the same label and the same component count, whatever their
  sparse and vector flags, inserted one after the other into a set that holds no other
  component count for the label: neither insertion raises an error, and one entry with
  the label is left.  The second insertion changes nothing, so the set keeps the
  descriptor that was there first, the first of the two when the label was new, and the
  flags of the second are dropped.  The comparison does not look at the flags.
\<close>

theorem duplicate_flags_first_wins:
  assumes "wf_set S" and "label b = label a" and "vlen b = vlen a"
    and "\<forall>y\<in>set S. label y = label a \<longrightarrow> vlen y = vlen a"
  shows "\<exists>S'. set_insert a S = Inr S' \<and> set_insert b S' = Inr S' \<and>
              length (filter (\<lambda>v. label v = label a) S') = 1 \<and>
              (label a \<notin> label ` set S \<longrightarrow> a \<in> set S' \<and> (b \<noteq> a \<longrightarrow> b \<notin> set S')) \<and>
              (label a \<in> label ` set S \<longrightarrow> S' = S) \<and>
              less_VarInfo a b = Inr False \<and> less_VarInfo b a = Inr False"
proof -
  have ins: "\<exists>S'. set_insert a S = Inr S'"
  proof (cases "label a \<in> label ` set S")
    case True
    then obtain y where y: "y \<in> set S" "label a = label y" by auto
    with assms(4) have "vlen a = vlen y" by simp
    with set_insert_present [OF assms(1) y] show ?thesis by simp
  next
    case False
    from set_insert_fresh [OF assms(1) False] show ?thesis by simp
  qed
  then obtain S' where S: "set_insert a S = Inr S'" by blast
  from set_insert_cases [OF assms(1) S]
  have wf': "wf_set S'"
    and S': "if label a \<in> label ` set S then S' = S else S' = insort_key label a S"
    by simp_all
  have ex: "\<exists>y\<in>set S'. label y = label a \<and> vlen y = vlen a"
  proof (cases "label a \<in> label ` set S")
    case True
    then obtain y where y: "y \<in> set S" "label a = label y" by auto
    with assms(4) have "vlen y = vlen a" by simp
    with y True S' show ?thesis by auto
  next
    case False
    with S' have "a \<in> set S'" by (simp add: set_insort_key)
    then show ?thesis by auto
  qed
  then obtain y where y: "y \<in> set S'" "label y = label a" "vlen y = vlen a" by auto
  have 1: "set_insert b S' = Inr S'"
    using set_insert_present [OF wf' y(1), of b] assms(2,3) y by simp
  have "distinct (map label S')"
    using wf' by (simp add: wf_set_def strict_sorted_iff)
  from one_entry_per_key [OF this y(1)] y(2)
  have 2: "length (filter (\<lambda>v. label v = label a) S') = 1"
    by simp
  have 3: "label a \<notin> label ` set S \<longrightarrow> a \<in> set S' \<and> (b \<noteq> a \<longrightarrow> b \<notin> set S')"
  proof
    assume f: "label a \<notin> label ` set S"
    with S' have s: "set S' = insert a (set S)" by (simp add: set_insort_key)
    have "b \<notin> set S"
    proof
      assume "b \<in> set S"
      then have "label b \<in> label ` set S" by (rule imageI)
      with f assms(2) show False by simp
    qed
    with s show "a \<in> set S' \<and> (b \<noteq> a \<longrightarrow> b \<notin> set S')" by simp
  qed
  have 4: "label a \<in> label ` set S \<longrightarrow> S' = S"
    using S' by simp
  have 5: "less_VarInfo a b = Inr False \<and> less_VarInfo b a = Inr False"
    using assms(2,3) by (simp add: less_VarInfo_simps)
  from S 1 2 3 4 5 show ?thesis by blast
qed

theorem duplicate_flags_first_wins_witness:
  "set_insert \<lparr>label = ''b'', vlen = 2, is_sparse = False, is_vector = False\<rparr>
     [\<lparr>label = ''a'', vlen = 1, is_sparse = False, is_vector = False\<rparr>] =
   Inr [\<lparr>label = ''a'', vlen = 1, is_sparse = False, is_vector = False\<rparr>,
        \<lparr>label = ''b'', vlen = 2, is_sparse = False, is_vector = False\<rparr>] \<and>
   set_insert \<lparr>label = ''b'', vlen = 2, is_sparse = True, is_vector = True\<rparr>
     [\<lparr>label = ''a'', vlen = 1, is_sparse = False, is_vector = False\<rparr>,
      \<lparr>label = ''b'', vlen = 2, is_sparse = False, is_vector = False\<rparr>] =
   Inr [\<lparr>label = ''a'', vlen = 1, is_sparse = False, is_vector = False\<rparr>,
        \<lparr>label = ''b'', vlen = 2, is_sparse = False, is_vector = False\<rparr>]"
proof -
  let ?a = "\<lparr>label = ''a'', vlen = 1, is_sparse = False, is_vector = False\<rparr>"
  let ?b1 = "\<lparr>label = ''b'', vlen = 2, is_sparse = False, is_vector = False\<rparr>"
  let ?b2 = "\<lparr>label = ''b'', vlen = 2, is_sparse = True, is_vector = True\<rparr>"
  have wf: "wf_set [?a]" by (simp add: wf_set_def)
  have l: "label ?b2 = label ?b1" and v: "vlen ?b2 = vlen ?b1" by simp_all
  have c: "\<forall>y\<in>set [?a]. label y = label ?b1 \<longrightarrow> vlen y = vlen ?b1" by simp
  have ins: "set_insert ?b1 [?a] = Inr [?a, ?b1]"
    by (simp add: less_VarInfo_def)
  from duplicate_flags_first_wins [OF wf l v c]
  obtain S' where "set_insert ?b1 [?a] = Inr S'" "set_insert ?b2 S' = Inr S'"
    by blast
  with ins show ?thesis by simp
qed

subsection \<open>Unpacking the label buffer\<close>

lemma strchr_label:
  assumes "tab \<notin> set l" and "CHR 0x00 \<notin> set l"
  shows "strchr (l @ tab # rest) tab = Inr (Some (length l))"
  using assms by (induction l) auto


lemma unpack_labels_step:
  assumes "valid_label l"
  shows "unpack_labels after (l @ tab # rest) acc = unpack_labels after rest (acc @ [l])"
proof -
  from assms have l: "l \<noteq> []" "tab \<notin> set l" "CHR 0x00 \<notin> set l"
    by (simp_all add: valid_label_def)
  then show ?thesis
    by (subst unpack_labels.simps) (simp add: strchr_label)
qed

lemma unpack_labels_prefix:
  assumes "\<forall>l\<in>set ls. valid_label l"
  shows "unpack_labels after (concat (map (\<lambda>l. l @ [tab]) ls) @ rest) acc =
         unpack_labels after rest (acc @ ls)"
  using assms
proof (induction ls arbitrary: acc)
  case Nil
  then show ?case by simp
next
  case (Cons l ls)
  then have "unpack_labels after (l @ tab # (concat (map (\<lambda>l. l @ [tab]) ls) @ rest)) acc =
      unpack_labels after rest ((acc @ [l]) @ ls)"
    by (simp add: unpack_labels_step)
  then show ?case by simp
qed

lemma unpack_labels_Nil: "unpack_labels after [] acc = Inr acc"
  by (subst unpack_labels.simps) simp





subsection \<open>The offset of a rank\<close>

lemma offset_loop_sum:
  assumes "i \<le> my_rank" and "my_rank \<le> length nblist"
  shows "offset_loop nblist my_rank i my_offset =
           Inr (my_offset + word_of_int (\<Sum>n = i..<my_rank. nblist ! n))"
  using assms
proof (induction nblist my_rank i my_offset rule: offset_loop.induct)
  case (1 nblist my_rank i my_offset)
  show ?case
  proof (cases "i < my_rank")
    case False
    with "1.prems" have "i = my_rank" by simp
    then show ?thesis by (subst offset_loop.simps) simp
  next
    case True
    with "1.prems" have il: "i < length nblist" by simp
    have s: "(\<Sum>n = i..<my_rank. nblist ! n) = nblist ! i + (\<Sum>n = i + 1..<my_rank. nblist ! n)"
      using True by (simp add: sum.atLeast_Suc_lessThan)
    have "offset_loop nblist my_rank (i + 1) (my_offset + word_of_int (nblist ! i)) =
        Inr (my_offset + word_of_int (nblist ! i) +
             word_of_int (\<Sum>n = i + 1..<my_rank. nblist ! n))"
      using "1.IH" [OF True il] True "1.prems" by simp
    then show ?thesis
      using True il by (subst offset_loop.simps) (simp add: s)
  qed
qed

lemma sum_counts_bound:
  assumes "\<forall>n\<in>set nblist. 0 \<le> n \<and> n < 2 ^ 31" and "my_rank \<le> length nblist"
  shows "0 \<le> (\<Sum>n = 0..<my_rank. nblist ! n) \<and>
         (\<Sum>n = 0..<my_rank. nblist ! n) \<le> int my_rank * 2 ^ 31"
  using assms(2)
proof (induction my_rank)
  case 0
  then show ?case by simp
next
  case (Suc r)
  then have "nblist ! r \<in> set nblist" by simp
  with assms(1) have "0 \<le> nblist ! r" "nblist ! r < 2 ^ 31" by auto
  with Suc show ?case by (simp add: algebra_simps)
qed

text \<open>
  C9: the offset of rank r in the block dimension is the sum of the block counts of the
  ranks 0 to r - 1, computed in 64-bit unsigned arithmetic, and the offsets in the four
  other dimensions are 0.  For block counts that are not negative (and a number of ranks
  that fits an \<open>int\<close>) the sum does not wrap around: the offset is the sum itself.
  The offset of rank 0 is 0.
\<close>

theorem rank_offset_prefix_sum:
  assumes "my_rank \<le> length nblist"
  shows "local_offset nblist my_rank =
           Inr [word_of_int (\<Sum>n = 0..<my_rank. nblist ! n), 0, 0, 0, 0] \<and>
         local_offset nblist 0 = Inr [0, 0, 0, 0, 0] \<and>
         ((\<forall>n\<in>set nblist. 0 \<le> n \<and> n < 2 ^ 31) \<and> length nblist < 2 ^ 31 \<longrightarrow>
            (\<exists>my_offset. local_offset nblist my_rank = Inr [my_offset, 0, 0, 0, 0] \<and>
               uint my_offset = (\<Sum>n = 0..<my_rank. nblist ! n)))"
proof -
  have 1: "local_offset nblist my_rank =
           Inr [word_of_int (\<Sum>n = 0..<my_rank. nblist ! n), 0, 0, 0, 0]"
    using offset_loop_sum [of 0 my_rank nblist 0] assms by (simp add: local_offset_def)
  have 2: "local_offset nblist 0 = Inr [0, 0, 0, 0, 0]"
    using offset_loop_sum [of 0 0 nblist 0] by (simp add: local_offset_def)
  have 3: "uint (word_of_int (\<Sum>n = 0..<my_rank. nblist ! n) :: hsize_t) =
             (\<Sum>n = 0..<my_rank. nblist ! n)"
    if b: "\<forall>n\<in>set nblist. 0 \<le> n \<and> n < 2 ^ 31" and l: "length nblist < 2 ^ 31"
  proof -
    from sum_counts_bound [OF b assms]
    have lo: "0 \<le> (\<Sum>n = 0..<my_rank. nblist ! n)"
      and hi: "(\<Sum>n = 0..<my_rank. nblist ! n) \<le> int my_rank * 2 ^ 31"
      by simp_all
    from assms l have "int my_rank < 2 ^ 31" by simp
    then have "int my_rank * 2 ^ 31 < 2 ^ 31 * 2 ^ 31"
      by (simp add: mult_strict_right_mono)
    with hi have up: "(\<Sum>n = 0..<my_rank. nblist ! n) < 2 ^ 64" by simp
    define total where "total = (\<Sum>n = 0..<my_rank. nblist ! n)"
    have "uint (word_of_int total :: hsize_t) = total mod 2 ^ LENGTH(64)"
      by (rule uint_word_of_int)
    also have "\<dots> = total"
      using lo up by (simp add: total_def)
    finally show ?thesis by (simp only: total_def)
  qed
  from 1 2 3 show ?thesis by auto
qed

theorem rank_offset_prefix_sum_witness:
  "local_offset [3, 5, 2, 7] 2 = Inr [8, 0, 0, 0, 0]"
proof -
  have h: "(2::nat) \<le> length [3, 5, 2, 7 :: int]" by simp
  have s: "(\<Sum>n = 0..<2. [3, 5, 2, 7 :: int] ! n) = 8"
    by (simp add: numeral_2_eq_2)
  from rank_offset_prefix_sum [OF h] show ?thesis
    by (simp add: s)
qed

subsection \<open>The fill kernel\<close>

text \<open>
  A loop of stores whose sources are never stored to: every cell stored to ends with the
  image of the old value of its source, every other cell keeps its value.
\<close>

lemma fill_from_unwritten:
  fixes q0 :: "'c \<Rightarrow> 'v"
  assumes F: "\<And>q c d. F q c d = (if d = c then g c (q (src c)) else q d)"
    and W: "\<forall>c\<in>set W. src c \<notin> set W"
  shows "foldl F q0 W c = (if c \<in> set W then g c (q0 (src c)) else q0 c)"
  using W
proof (induction W arbitrary: c rule: rev_induct)
  case Nil
  then show ?case by simp
next
  case (snoc x xs)
  then have xs: "\<forall>c\<in>set xs. src c \<notin> set xs" and x: "src x \<notin> set xs" and xx: "src x \<noteq> x"
    by auto
  have old: "foldl F q0 xs (src x) = q0 (src x)"
    using snoc.IH [OF xs, of "src x"] x by simp
  have "foldl F q0 (xs @ [x]) c = F (foldl F q0 xs) x c"
    by simp
  also have "\<dots> = (if c = x then g x (foldl F q0 xs (src x)) else foldl F q0 xs c)"
    by (rule F)
  finally have step: "foldl F q0 (xs @ [x]) c =
      (if c = x then g x (foldl F q0 xs (src x)) else foldl F q0 xs c)" .
  show ?case
  proof (cases "c = x")
    case True
    with step old show ?thesis by simp
  next
    case False
    with step snoc.IH [OF xs, of c] show ?thesis by simp
  qed
qed

lemma GenericBC_kernel_store:
  "GenericBC_kernel DIR BC_TYPE (bc_ref SIDE rng) (bc_offset SIDE rng) VectorComponent
     GetVarIdx a k j i q d =
   (if d = (GetVarIdx a, k, j, i)
    then bc_value DIR BC_TYPE VectorComponent (GetVarIdx a, k, j, i)
           (q (bc_source DIR SIDE BC_TYPE rng (GetVarIdx a, k, j, i)))
    else q d)"
  by (simp add: GenericBC_kernel_def bc_value_def bc_source_def Let_def)

lemma GenericBC_as_fill:
  "GenericBC DIR SIDE BC_TYPE c_cellbounds cellbounds VectorComponent GetVarIdx iters q coarse =
   foldl (\<lambda>q' c. GenericBC_kernel DIR BC_TYPE
                    (bc_ref SIDE (interior_range DIR (if coarse then c_cellbounds else cellbounds)))
                    (bc_offset SIDE (interior_range DIR (if coarse then c_cellbounds else cellbounds)))
                    VectorComponent (\<lambda>l. l) (fst c) (fst (snd c)) (fst (snd (snd c)))
                    (snd (snd (snd c))) q')
     q (map (\<lambda>(a, k, j, i). (GetVarIdx a, k, j, i)) iters)"
proof -
  have k: "GenericBC_kernel DIR BC_TYPE r off VectorComponent GetVarIdx a k j i q' =
           GenericBC_kernel DIR BC_TYPE r off VectorComponent (\<lambda>l. l) (GetVarIdx a) k j i q'"
    for r off a k j i q'
    by (simp add: GenericBC_kernel_def)
  have "foldl (\<lambda>q' (a, k, j, i). f (GetVarIdx a) k j i q') q iters =
        foldl (\<lambda>q' c. f (fst c) (fst (snd c)) (fst (snd (snd c))) (snd (snd (snd c))) q') q
          (map (\<lambda>(a, k, j, i). (GetVarIdx a, k, j, i)) iters)"
    for f :: "nat \<Rightarrow> int \<Rightarrow> int \<Rightarrow> int \<Rightarrow> VariablePack \<Rightarrow> VariablePack"
    by (induction iters arbitrary: q) (auto simp: case_prod_beta)
  note fm = this [symmetric]
  have off: "2 * bc_ref SIDE rng + (if SIDE = Inner then - 1 else 1) = bc_offset SIDE rng" for rng
    by (simp add: bc_ref_def bc_offset_def)
  have r: "(if SIDE = Inner then range_s rng else range_e rng) = bc_ref SIDE rng" for rng
    by (simp add: bc_ref_def)
  have ir: "(if DIR = X1DIR then GetBoundsI b
            else if DIR = X2DIR then GetBoundsJ b else GetBoundsK b) = interior_range DIR b" for b
    by (simp add: interior_range_def)
  show ?thesis
    unfolding fm GenericBC_def par_for_bndry_def Let_def r ir off
    by (simp only: k [symmetric])
qed

lemma GenericBC_cell:
  assumes dir: "DIR = X1DIR \<or> DIR = X2DIR \<or> DIR = X3DIR"
    and ghost: "\<forall>(a, k, j, i)\<in>set iters.
                  in_ghost_region SIDE
                    (interior_range DIR (if coarse then c_cellbounds else cellbounds))
                    (dir_index DIR k j i)"
  shows "GenericBC DIR SIDE BC_TYPE c_cellbounds cellbounds VectorComponent GetVarIdx iters q
           coarse c =
         (if c \<in> (\<lambda>(a, k, j, i). (GetVarIdx a, k, j, i)) ` set iters
          then bc_value DIR BC_TYPE VectorComponent c
                 (q (bc_source DIR SIDE BC_TYPE
                       (interior_range DIR (if coarse then c_cellbounds else cellbounds)) c))
          else q c)"
proof -
  define rng where "rng = interior_range DIR (if coarse then c_cellbounds else cellbounds)"
  define W where "W = map (\<lambda>(a, k, j, i). (GetVarIdx a, k, j, i)) iters"
  define P :: "nat \<times> int \<times> int \<times> int \<Rightarrow> bool"
    where "P = (\<lambda>(l, k, j, i). in_ghost_region SIDE rng (dir_index DIR k j i))"
  have written: "P d" if "d \<in> set W" for d
    using that ghost by (auto simp: W_def P_def rng_def)
  have source: "\<not> P (bc_source DIR SIDE BC_TYPE rng d)" if "P d" for d
  proof -
    obtain l k j i where d: "d = (l, k, j, i)" by (cases d) auto
    from that dir show ?thesis
      unfolding d P_def bc_source_def in_ghost_region_def dir_index_def bc_offset_def bc_ref_def
      by (auto simp: Let_def split: if_splits)
  qed
  have W: "\<forall>d\<in>set W. bc_source DIR SIDE BC_TYPE rng d \<notin> set W"
    using written source by blast
  have F: "GenericBC_kernel DIR BC_TYPE (bc_ref SIDE rng) (bc_offset SIDE rng) VectorComponent
             (\<lambda>l. l) (fst d) (fst (snd d)) (fst (snd (snd d))) (snd (snd (snd d))) q' d' =
           (if d' = d then bc_value DIR BC_TYPE VectorComponent d
                             (q' (bc_source DIR SIDE BC_TYPE rng d))
            else q' d')" for q' d d'
    using GenericBC_kernel_store [of DIR BC_TYPE SIDE rng VectorComponent "\<lambda>l. l"
        "fst d" "fst (snd d)" "fst (snd (snd d))" "snd (snd (snd d))" q' d']
    by simp
  have "foldl (\<lambda>q' d. GenericBC_kernel DIR BC_TYPE (bc_ref SIDE rng) (bc_offset SIDE rng)
                  VectorComponent (\<lambda>l. l) (fst d) (fst (snd d)) (fst (snd (snd d)))
                  (snd (snd (snd d))) q') q W c =
        (if c \<in> set W then bc_value DIR BC_TYPE VectorComponent c
                               (q (bc_source DIR SIDE BC_TYPE rng c))
         else q c)"
    by (rule fill_from_unwritten [where g = "bc_value DIR BC_TYPE VectorComponent"
          and src = "bc_source DIR SIDE BC_TYPE rng", OF F W])
  then show ?thesis
    unfolding GenericBC_as_fill rng_def [symmetric] W_def [symmetric]
    by (simp add: W_def)
qed

text \<open>
  C3: the Reflect fill of the face (direction, side) gives every cell of the ghost region
  of the face, at index idx in the direction of the face, the value at the mirrored index
  offset - idx, the two other indices being the same, where offset is 2 s - 1 for the
  inner side and 2 e + 1 for the outer side of the interior range [s, e]; the sign of the
  value is changed if and only if the vector component of the variable is the direction
  of the face.
\<close>

theorem reflect_fill:
  assumes "DIR = X1DIR \<or> DIR = X2DIR \<or> DIR = X3DIR"
    and "\<forall>(a, k, j, i)\<in>set iters.
           in_ghost_region SIDE
             (interior_range DIR (if coarse then c_cellbounds else cellbounds))
             (dir_index DIR k j i)"
    and "(a, k, j, i) \<in> set iters"
  shows "GenericBC DIR SIDE Reflect c_cellbounds cellbounds VectorComponent GetVarIdx iters q
           coarse (GetVarIdx a, k, j, i) =
         (let rng = interior_range DIR (if coarse then c_cellbounds else cellbounds);
              offset = (if SIDE = Inner then 2 * range_s rng - 1 else 2 * range_e rng + 1);
              mirrored = q (GetVarIdx a,
                            if DIR = X3DIR then offset - k else k,
                            if DIR = X2DIR then offset - j else j,
                            if DIR = X1DIR then offset - i else i)
          in if VectorComponent (GetVarIdx a) = DIR then - mirrored else mirrored)"
proof -
  have "(GetVarIdx a, k, j, i) \<in> (\<lambda>(a, k, j, i). (GetVarIdx a, k, j, i)) ` set iters"
    using assms(3) by force
  then show ?thesis
    unfolding GenericBC_cell [OF assms(1,2)]
    by (simp add: bc_value_def bc_source_def bc_offset_def Let_def)
qed

theorem reflect_fill_witness:
  "GenericBC X1DIR Inner Reflect
     \<lparr>GetBoundsI = \<lparr>range_s = 2, range_e = 5\<rparr>, GetBoundsJ = \<lparr>range_s = 0, range_e = 0\<rparr>,
      GetBoundsK = \<lparr>range_s = 0, range_e = 0\<rparr>\<rparr>
     \<lparr>GetBoundsI = \<lparr>range_s = 4, range_e = 10\<rparr>, GetBoundsJ = \<lparr>range_s = 0, range_e = 0\<rparr>,
      GetBoundsK = \<lparr>range_s = 0, range_e = 0\<rparr>\<rparr>
     (\<lambda>l. if l = 0 then X1DIR else X2DIR) (\<lambda>a. a) [(0, 0, 0, 3), (1, 0, 0, 3)]
     (\<lambda>(l, k, j, i). real_of_int (10 * i)) False (0, 0, 0, 3) = - 40 \<and>
   GenericBC X1DIR Inner Reflect
     \<lparr>GetBoundsI = \<lparr>range_s = 2, range_e = 5\<rparr>, GetBoundsJ = \<lparr>range_s = 0, range_e = 0\<rparr>,
      GetBoundsK = \<lparr>range_s = 0, range_e = 0\<rparr>\<rparr>
     \<lparr>GetBoundsI = \<lparr>range_s = 4, range_e = 10\<rparr>, GetBoundsJ = \<lparr>range_s = 0, range_e = 0\<rparr>,
      GetBoundsK = \<lparr>range_s = 0, range_e = 0\<rparr>\<rparr>
     (\<lambda>l. if l = 0 then X1DIR else X2DIR) (\<lambda>a. a) [(0, 0, 0, 3), (1, 0, 0, 3)]
     (\<lambda>(l, k, j, i). real_of_int (10 * i)) False (1, 0, 0, 3) = 40"
proof -
  let ?cb = "\<lparr>GetBoundsI = \<lparr>range_s = 2, range_e = 5\<rparr>, GetBoundsJ = \<lparr>range_s = 0, range_e = 0\<rparr>,
      GetBoundsK = \<lparr>range_s = 0, range_e = 0\<rparr>\<rparr>"
  let ?b = "\<lparr>GetBoundsI = \<lparr>range_s = 4, range_e = 10\<rparr>, GetBoundsJ = \<lparr>range_s = 0, range_e = 0\<rparr>,
      GetBoundsK = \<lparr>range_s = 0, range_e = 0\<rparr>\<rparr>"
  let ?iters = "[(0, 0, 0, 3), (1, 0, 0, 3)] :: (nat \<times> int \<times> int \<times> int) list"
  have d: "X1DIR = X1DIR \<or> X1DIR = X2DIR \<or> X1DIR = X3DIR" by simp
  have g: "\<forall>(a, k, j, i)\<in>set ?iters.
             in_ghost_region Inner (interior_range X1DIR (if False then ?cb else ?b))
               (dir_index X1DIR k j i)"
    by (simp add: in_ghost_region_def interior_range_def dir_index_def)
  have m0: "(0, 0, 0, 3) \<in> set ?iters" and m1: "(1, 0, 0, 3) \<in> set ?iters"
    by simp_all
  from reflect_fill [OF d g m0, of "\<lambda>l. if l = 0 then X1DIR else X2DIR" "\<lambda>a. a"
      "\<lambda>(l, k, j, i). real_of_int (10 * i)"]
    reflect_fill [OF d g m1, of "\<lambda>l. if l = 0 then X1DIR else X2DIR" "\<lambda>a. a"
      "\<lambda>(l, k, j, i). real_of_int (10 * i)"]
  show ?thesis
    by (simp add: interior_range_def Let_def)
qed

text \<open>
  C7: the Outflow fill of a face gives every cell of the ghost region of the face the
  value at the reference index of the face in the direction of the face, s for the inner
  and e for the outer side of the interior range [s, e], the two other indices being the
  same, without a change of sign, whatever the component of the variable.
\<close>

theorem outflow_fill:
  assumes "DIR = X1DIR \<or> DIR = X2DIR \<or> DIR = X3DIR"
    and "\<forall>(a, k, j, i)\<in>set iters.
           in_ghost_region SIDE
             (interior_range DIR (if coarse then c_cellbounds else cellbounds))
             (dir_index DIR k j i)"
    and "(a, k, j, i) \<in> set iters"
  shows "GenericBC DIR SIDE Outflow c_cellbounds cellbounds VectorComponent GetVarIdx iters q
           coarse (GetVarIdx a, k, j, i) =
         (let rng = interior_range DIR (if coarse then c_cellbounds else cellbounds);
              ref = (if SIDE = Inner then range_s rng else range_e rng)
          in q (GetVarIdx a,
                if DIR = X3DIR then ref else k,
                if DIR = X2DIR then ref else j,
                if DIR = X1DIR then ref else i))"
proof -
  have "(GetVarIdx a, k, j, i) \<in> (\<lambda>(a, k, j, i). (GetVarIdx a, k, j, i)) ` set iters"
    using assms(3) by force
  then show ?thesis
    unfolding GenericBC_cell [OF assms(1,2)]
    by (simp add: bc_value_def bc_source_def bc_ref_def Let_def)
qed

theorem outflow_fill_witness:
  "GenericBC X2DIR Outer Outflow
     \<lparr>GetBoundsI = \<lparr>range_s = 0, range_e = 0\<rparr>, GetBoundsJ = \<lparr>range_s = 2, range_e = 5\<rparr>,
      GetBoundsK = \<lparr>range_s = 0, range_e = 0\<rparr>\<rparr>
     \<lparr>GetBoundsI = \<lparr>range_s = 0, range_e = 0\<rparr>, GetBoundsJ = \<lparr>range_s = 4, range_e = 10\<rparr>,
      GetBoundsK = \<lparr>range_s = 0, range_e = 0\<rparr>\<rparr>
     (\<lambda>l. X2DIR) (\<lambda>a. a) [(0, 0, 6, 0), (0, 0, 7, 0)]
     (\<lambda>(l, k, j, i). real_of_int (10 * j)) True (0, 0, 7, 0) = 50"
proof -
  let ?cb = "\<lparr>GetBoundsI = \<lparr>range_s = 0, range_e = 0\<rparr>, GetBoundsJ = \<lparr>range_s = 2, range_e = 5\<rparr>,
      GetBoundsK = \<lparr>range_s = 0, range_e = 0\<rparr>\<rparr>"
  let ?b = "\<lparr>GetBoundsI = \<lparr>range_s = 0, range_e = 0\<rparr>, GetBoundsJ = \<lparr>range_s = 4, range_e = 10\<rparr>,
      GetBoundsK = \<lparr>range_s = 0, range_e = 0\<rparr>\<rparr>"
  let ?iters = "[(0, 0, 6, 0), (0, 0, 7, 0)] :: (nat \<times> int \<times> int \<times> int) list"
  have d: "X2DIR = X1DIR \<or> X2DIR = X2DIR \<or> X2DIR = X3DIR" by simp
  have g: "\<forall>(a, k, j, i)\<in>set ?iters.
             in_ghost_region Outer (interior_range X2DIR (if True then ?cb else ?b))
               (dir_index X2DIR k j i)"
    by (simp add: in_ghost_region_def interior_range_def dir_index_def)
  have m: "(0, 0, 7, 0) \<in> set ?iters" by simp
  from outflow_fill [OF d g m, of "\<lambda>l. X2DIR" "\<lambda>a. a" "\<lambda>(l, k, j, i). real_of_int (10 * j)"]
  show ?thesis
    by (simp add: interior_range_def Let_def)
qed

subsection \<open>Reconciliation\<close>

lemma all_labels_buffer_concat:
  "all_labels_buffer ranks = concat (map (\<lambda>l. l @ [tab]) (map label (concat ranks)))"
  by (induction ranks) (simp_all add: all_labels_buffer_def label_buffer_def comp_def)

lemma all_codes_concat: "all_codes ranks = map get_info_code (concat ranks)"
  by (induction ranks) (simp_all add: all_codes_def code_buffer_def)

text \<open>
  Inserting the decoded descriptors of all ranks, when descriptors with the same label
  have the same length: no insertion fails, and the labels of the result are those of the
  set and of the descriptors.
\<close>

lemma insert_decoded_union:
  assumes "wf_set S"
    and "\<forall>v\<in>set vs. 1 \<le> vlen v \<and> vlen v \<le> 65535"
    and "\<forall>v\<in>set vs \<union> set S. \<forall>w\<in>set vs \<union> set S. label v = label w \<longrightarrow> vlen v = vlen w"
  shows "\<exists>G. insert_decoded (map (\<lambda>v. (label v, get_info_code v)) vs) S = Inr G \<and>
             wf_set G \<and> label ` set G = label ` set S \<union> label ` set vs \<and>
             set G \<subseteq> set S \<union> set vs"
  using assms
proof (induction vs arbitrary: S)
  case Nil
  then show ?case by simp
next
  case (Cons v vs)
  have dec: "Decode (label v) (get_info_code v) = v"
    using Decode_get_info_code [of v "label v"] Cons.prems(2) by simp
  have "\<exists>S'. set_insert v S = Inr S' \<and> wf_set S' \<and>
            label ` set S' = insert (label v) (label ` set S) \<and> set S' \<subseteq> insert v (set S)"
  proof (cases "label v \<in> label ` set S")
    case True
    then obtain y where y: "y \<in> set S" "label v = label y" by auto
    with Cons.prems(3) have "vlen v = vlen y" by simp
    with set_insert_present [OF Cons.prems(1) y] True Cons.prems(1) show ?thesis
      by auto
  next
    case False
    from set_insert_fresh [OF Cons.prems(1) False] wf_set_insort [OF Cons.prems(1) False]
    show ?thesis by (auto simp: set_insort_key)
  qed
  then obtain S' where S': "set_insert v S = Inr S'" "wf_set S'"
    "label ` set S' = insert (label v) (label ` set S)" "set S' \<subseteq> insert v (set S)"
    by blast
  have r: "\<forall>v\<in>set vs. 1 \<le> vlen v \<and> vlen v \<le> 65535"
    using Cons.prems(2) by simp
  have c: "\<forall>a\<in>set vs \<union> set S'. \<forall>b\<in>set vs \<union> set S'. label a = label b \<longrightarrow> vlen a = vlen b"
  proof (intro ballI impI)
    fix a b assume "a \<in> set vs \<union> set S'" "b \<in> set vs \<union> set S'" "label a = label b"
    with S'(4) have "a \<in> set (v # vs) \<union> set S" "b \<in> set (v # vs) \<union> set S" by auto
    with Cons.prems(3) \<open>label a = label b\<close> show "vlen a = vlen b" by blast
  qed
  from Cons.IH [OF S'(2) r c] obtain G where
    G: "insert_decoded (map (\<lambda>v. (label v, get_info_code v)) vs) S' = Inr G" "wf_set G"
       "label ` set G = label ` set S' \<union> label ` set vs" "set G \<subseteq> set S' \<union> set vs"
    by blast
  have "insert_decoded (map (\<lambda>v. (label v, get_info_code v)) (v # vs)) S = Inr G"
    using S'(1) G(1) dec by simp
  moreover have "label ` set G = label ` set S \<union> label ` set (v # vs)"
    using G(3) S'(3) by auto
  moreover have "set G \<subseteq> set S \<union> set (v # vs)"
    using G(4) S'(4) by auto
  ultimately show ?case using G(2) by blast
qed

lemma sorted_labels_unique:
  assumes "wf_set G" and "label ` set G = L" and "finite L"
  shows "map label G = sorted_list_of_set L"
proof -
  have "sorted (map label G)" "distinct (map label G)"
    using assms(1) by (simp_all add: wf_set_def strict_sorted_iff)
  moreover have "set (map label G) = set (sorted_list_of_set L)"
    using assms(2,3) by simp
  ultimately show ?thesis
    by (intro sorted_distinct_set_unique) simp_all
qed

lemma reconcile_union:
  assumes wf: "\<forall>S\<in>set ranks. wf_set S"
    and ok: "\<forall>S\<in>set ranks. \<forall>v\<in>set S.
               valid_label (label v) \<and> 1 \<le> vlen v \<and> vlen v \<le> 65535"
    and same: "\<forall>S\<in>set ranks. \<forall>T\<in>set ranks. \<forall>v\<in>set S. \<forall>w\<in>set T.
                 label v = label w \<longrightarrow> vlen v = vlen w"
    and r: "r < length ranks"
  shows "\<exists>G. reconcile after (ranks ! r) ranks = Inr G \<and> wf_set G \<and>
             label ` set G = (\<Union>S\<in>set ranks. label ` set S) \<and>
             set G \<subseteq> (\<Union>S\<in>set ranks. set S)"
proof -
  let ?vs = "concat ranks"
  have mem: "ranks ! r \<in> set ranks" using r by simp
  have valid: "\<forall>l\<in>set (map label ?vs). valid_label l"
    using ok by auto
  have unpack: "unpack_labels after (all_labels_buffer ranks) [] = Inr (map label ?vs)"
    using unpack_labels_prefix [OF valid, of after "[]" "[]"]
    by (simp add: all_labels_buffer_concat unpack_labels_Nil)
  have zip: "zip (map label ?vs) (all_codes ranks) = map (\<lambda>v. (label v, get_info_code v)) ?vs"
    by (simp add: all_codes_concat zip_map_map zip_same_conv_map)
  have rec: "reconcile after (ranks ! r) ranks =
      insert_decoded (map (\<lambda>v. (label v, get_info_code v)) ?vs) (ranks ! r)"
    unfolding reconcile_def unpack zip [symmetric]
    by (simp add: all_codes_concat)
  have 1: "wf_set (ranks ! r)" using wf mem by blast
  have 2: "\<forall>v\<in>set ?vs. 1 \<le> vlen v \<and> vlen v \<le> 65535"
    using ok by auto
  have sub: "set (ranks ! r) \<subseteq> set ?vs" using mem by auto
  have 3: "\<forall>v\<in>set ?vs \<union> set (ranks ! r). \<forall>w\<in>set ?vs \<union> set (ranks ! r).
             label v = label w \<longrightarrow> vlen v = vlen w"
  proof (intro ballI impI)
    fix v w assume "v \<in> set ?vs \<union> set (ranks ! r)" "w \<in> set ?vs \<union> set (ranks ! r)"
      and l: "label v = label w"
    with sub have "v \<in> set ?vs" "w \<in> set ?vs" by auto
    then obtain S T where "S \<in> set ranks" "v \<in> set S" "T \<in> set ranks" "w \<in> set T"
      by auto
    with same l show "vlen v = vlen w" by blast
  qed
  from insert_decoded_union [OF 1 2 3] obtain G where
    G: "insert_decoded (map (\<lambda>v. (label v, get_info_code v)) ?vs) (ranks ! r) = Inr G"
       "wf_set G" "label ` set G = label ` set (ranks ! r) \<union> label ` set ?vs"
       "set G \<subseteq> set (ranks ! r) \<union> set ?vs"
    by blast
  have "label ` set (ranks ! r) \<subseteq> label ` set ?vs"
    using sub by (rule image_mono)
  with G(3) have "label ` set G = label ` set ?vs" by blast
  also have "\<dots> = (\<Union>S\<in>set ranks. label ` set S)" by auto
  finally have "label ` set G = (\<Union>S\<in>set ranks. label ` set S)" .
  moreover have "set G \<subseteq> (\<Union>S\<in>set ranks. set S)"
    using G(4) sub by auto
  ultimately show ?thesis using G(1,2) rec by auto
qed

text \<open>
  C2: for sets of descriptors on the ranks (labels that the buffer can carry, component
  counts in range, equal counts for equal labels), the reconciled set of every rank lists
  each label of the union once, in increasing order of the labels: the list of labels is
  the sorted list of the union of the labels, whichever rank held which descriptor (and
  whatever memory follows the gathered label buffer).
\<close>

theorem reconcile_sorted_union:
  assumes "\<forall>S\<in>set ranks. wf_set S"
    and "\<forall>S\<in>set ranks. \<forall>v\<in>set S.
           valid_label (label v) \<and> 1 \<le> vlen v \<and> vlen v \<le> 65535"
    and "\<forall>S\<in>set ranks. \<forall>T\<in>set ranks. \<forall>v\<in>set S. \<forall>w\<in>set T.
           label v = label w \<longrightarrow> vlen v = vlen w"
    and "r < length ranks"
  shows "\<exists>G. reconcile after (ranks ! r) ranks = Inr G \<and>
             map label G = sorted_list_of_set (\<Union>S\<in>set ranks. label ` set S) \<and>
             set G \<subseteq> (\<Union>S\<in>set ranks. set S)"
proof -
  from reconcile_union [OF assms] obtain G where
    G: "reconcile after (ranks ! r) ranks = Inr G" "wf_set G"
       "label ` set G = (\<Union>S\<in>set ranks. label ` set S)"
       "set G \<subseteq> (\<Union>S\<in>set ranks. set S)"
    by blast
  have "finite (\<Union>S\<in>set ranks. label ` set S)" by simp
  from sorted_labels_unique [OF G(2,3) this] G(1,4) show ?thesis by blast
qed

theorem reconcile_sorted_union_witness:
  "local_unique_vars
     [[\<lparr>cv_label = ''b'', cv_dim4 = 2, cv_sparse = False, cv_vector = False, cv_data = (\<lambda>c. 0)\<rparr>,
       \<lparr>cv_label = ''a'', cv_dim4 = 1, cv_sparse = True, cv_vector = False, cv_data = (\<lambda>c. 0)\<rparr>]] []
     = Inr [\<lparr>label = ''a'', vlen = 1, is_sparse = True, is_vector = False\<rparr>,
            \<lparr>label = ''b'', vlen = 2, is_sparse = False, is_vector = False\<rparr>] \<and>
   (\<exists>G. reconcile ''zz''
          [\<lparr>label = ''a'', vlen = 1, is_sparse = True, is_vector = False\<rparr>,
           \<lparr>label = ''b'', vlen = 2, is_sparse = False, is_vector = False\<rparr>]
          [[\<lparr>label = ''a'', vlen = 1, is_sparse = True, is_vector = False\<rparr>,
            \<lparr>label = ''b'', vlen = 2, is_sparse = False, is_vector = False\<rparr>],
           [\<lparr>label = ''c'', vlen = 1, is_sparse = False, is_vector = False\<rparr>]] = Inr G \<and>
        map label G = [''a'', ''b'', ''c'']) \<and>
   (\<exists>G. reconcile ''zz''
          [\<lparr>label = ''c'', vlen = 1, is_sparse = False, is_vector = False\<rparr>]
          [[\<lparr>label = ''a'', vlen = 1, is_sparse = True, is_vector = False\<rparr>,
            \<lparr>label = ''b'', vlen = 2, is_sparse = False, is_vector = False\<rparr>],
           [\<lparr>label = ''c'', vlen = 1, is_sparse = False, is_vector = False\<rparr>]] = Inr G \<and>
        map label G = [''a'', ''b'', ''c''])"
proof -
  let ?A = "\<lparr>label = ''a'', vlen = 1, is_sparse = True, is_vector = False\<rparr>"
  let ?B = "\<lparr>label = ''b'', vlen = 2, is_sparse = False, is_vector = False\<rparr>"
  let ?C = "\<lparr>label = ''c'', vlen = 1, is_sparse = False, is_vector = False\<rparr>"
  let ?ranks = "[[?A, ?B], [?C]]"
  have loc: "local_unique_vars
     [[\<lparr>cv_label = ''b'', cv_dim4 = 2, cv_sparse = False, cv_vector = False, cv_data = (\<lambda>c. 0)\<rparr>,
       \<lparr>cv_label = ''a'', cv_dim4 = 1, cv_sparse = True, cv_vector = False, cv_data = (\<lambda>c. 0)\<rparr>]] []
     = Inr [?A, ?B]"
    by (simp add: mk_VarInfo_def max_vlen_def less_VarInfo_def)
  have wf: "\<forall>S\<in>set ?ranks. wf_set S"
    by (simp add: wf_set_def)
  have ok: "\<forall>S\<in>set ?ranks. \<forall>v\<in>set S.
              valid_label (label v) \<and> 1 \<le> vlen v \<and> vlen v \<le> 65535"
    by (simp add: valid_label_def tab_def)
  have same: "\<forall>S\<in>set ?ranks. \<forall>T\<in>set ?ranks. \<forall>v\<in>set S. \<forall>w\<in>set T.
                label v = label w \<longrightarrow> vlen v = vlen w"
    by simp
  have r0: "0 < length ?ranks" and r1: "1 < length ?ranks" by simp_all
  have "sorted_list_of_set (set [''a'', ''b'', ''c'']) = [''a'', ''b'', ''c'']"
    by (rule sorted_list_of_set.idem_if_sorted_distinct) simp_all
  then have u: "sorted_list_of_set (\<Union>S\<in>set ?ranks. label ` set S) = [''a'', ''b'', ''c'']"
    by (simp add: insert_commute)
  from reconcile_sorted_union [where after = "''zz''", OF wf ok same r0] obtain G0 where
    "reconcile ''zz'' (?ranks ! 0) ?ranks = Inr G0"
    "map label G0 = sorted_list_of_set (\<Union>S\<in>set ?ranks. label ` set S)"
    by blast
  then have g0: "reconcile ''zz'' [?A, ?B] ?ranks = Inr G0 \<and> map label G0 = [''a'', ''b'', ''c'']"
    by (simp only: u nth_Cons_0 simp_thms)
  from reconcile_sorted_union [where after = "''zz''", OF wf ok same r1] obtain G1 where
    "reconcile ''zz'' (?ranks ! 1) ?ranks = Inr G1"
    "map label G1 = sorted_list_of_set (\<Union>S\<in>set ?ranks. label ` set S)"
    by blast
  then have g1: "reconcile ''zz'' [?C] ?ranks = Inr G1 \<and> map label G1 = [''a'', ''b'', ''c'']"
    by (simp only: u nth_Cons_0 nth_Cons_Suc One_nat_def simp_thms)
  have e0: "\<exists>G. reconcile ''zz'' [?A, ?B] ?ranks = Inr G \<and> map label G = [''a'', ''b'', ''c'']"
    by (rule exI [where x = G0], rule g0)
  have e1: "\<exists>G. reconcile ''zz'' [?C] ?ranks = Inr G \<and> map label G = [''a'', ''b'', ''c'']"
    by (rule exI [where x = G1], rule g1)
  show ?thesis by (intro conjI loc e0 e1)
qed

subsection \<open>Packing the write buffer\<close>

lemma store_seq_block:
  assumes "idx + length xs \<le> length buf"
  shows "store_seq buf idx xs =
           Inr (take idx buf @ xs @ drop (idx + length xs) buf, idx + length xs)"
  using assms
proof (induction xs arbitrary: buf idx)
  case Nil
  then show ?case by simp
next
  case (Cons x xs)
  then have lt: "idx < length buf" and le: "(idx + 1) + length xs \<le> length (buf[idx := x])"
    by simp_all
  have t: "take (Suc idx) (buf[idx := x]) = take idx buf @ [x]"
    using lt by (simp add: take_Suc_conv_app_nth)
  show ?case
    using lt Cons.IH [OF le] by (simp add: t)
qed

lemma length_concat_const:
  assumes "\<forall>x\<in>set xs. length (f x) = c"
  shows "length (concat (map f xs)) = length xs * c"
  using assms by (induction xs) simp_all

lemma length_copy_values:
  assumes "range_s out_kb \<le> range_e out_kb" and "range_s out_jb \<le> range_e out_jb"
    and "range_s out_ib \<le> range_e out_ib"
  shows "length (copy_values cast v out_kb out_jb out_ib n) =
           varSize_of out_kb out_jb out_ib * n"
proof -
  let ?nk = "nat (range_e out_kb - range_s out_kb + 1)"
  let ?nj = "nat (range_e out_jb - range_s out_jb + 1)"
  let ?ni = "nat (range_e out_ib - range_s out_ib + 1)"
  have i: "length (concat (map (\<lambda>i. map (\<lambda>l. cast (cv_data v (l, k, j, i))) [0..<n])
              [range_s out_ib..range_e out_ib])) = ?ni * n" for k j
    by (subst length_concat_const [where c = n]) simp_all
  have j: "length (concat (map (\<lambda>j. concat (map (\<lambda>i. map (\<lambda>l. cast (cv_data v (l, k, j, i))) [0..<n])
              [range_s out_ib..range_e out_ib])) [range_s out_jb..range_e out_jb])) =
           ?nj * (?ni * n)" for k
    by (subst length_concat_const [where c = "?ni * n"]) (simp_all add: i)
  have k: "length (copy_values cast v out_kb out_jb out_ib n) = ?nk * (?nj * (?ni * n))"
    unfolding copy_values_def
    by (subst length_concat_const [where c = "?nj * (?ni * n)"]) (simp_all add: j)
  have "varSize_of out_kb out_jb out_ib = ?nk * ?nj * ?ni"
    using assms by (simp add: varSize_of_def Let_def nat_mult_distrib)
  with k show ?thesis by simp
qed

lemma find_has_variable:
  "find (\<lambda>v. var_name = cv_label v) pmb = None \<longleftrightarrow> \<not> has_variable var_name pmb"
  by (auto simp: find_None_iff has_variable_def)


lemma pack_block_missing_sparse:
  assumes miss: "\<not> has_variable (label vi) pmb" and sp: "is_sparse vi"
    and idx: "sfi (label vi) = Some sidx" "b_idx * ns + sidx < length (sparse_expanded st)"
    and size: "index st + block_values kb jb ib vi \<le> length (tmpData st)"
  shows "pack_block c kb jb ib sfi ns vi b_idx pmb st =
           Inr \<lparr> tmpData = take (index st) (tmpData st) @
                         replicate (block_values kb jb ib vi) 0 @
                         drop (index st + block_values kb jb ib vi) (tmpData st),
                 index = index st + block_values kb jb ib vi,
                 sparse_expanded = (sparse_expanded st)[b_idx * ns + sidx := False],
                 found_any = found_any st \<rparr>"
proof -
  from miss have f: "find (\<lambda>v. label vi = cv_label v) pmb = None"
    by (simp add: find_has_variable)
  have st: "store_seq (tmpData st) (index st) (replicate (block_values kb jb ib vi) 0) =
      Inr (take (index st) (tmpData st) @ replicate (block_values kb jb ib vi) 0 @
           drop (index st + block_values kb jb ib vi) (tmpData st),
           index st + block_values kb jb ib vi)"
    using store_seq_block [of "index st" "replicate (block_values kb jb ib vi) 0" "tmpData st"]
      size by simp
  show ?thesis
    using f sp idx st by (simp add: pack_block_def block_values_def Let_def)
qed

lemma pack_block_found:
  assumes hit: "find (\<lambda>v. label vi = cv_label v) pmb = Some v"
    and ranges: "range_s kb \<le> range_e kb" "range_s jb \<le> range_e jb" "range_s ib \<le> range_e ib"
    and idx: "is_sparse vi \<longrightarrow>
                sfi (label vi) = Some sidx \<and> b_idx * ns + sidx < length (sparse_expanded st)"
    and size: "index st + block_values kb jb ib vi \<le> length (tmpData st)"
  shows "pack_block c kb jb ib sfi ns vi b_idx pmb st =
           Inr \<lparr> tmpData = take (index st) (tmpData st) @
                         copy_values c v kb jb ib (nat (vlen vi)) @
                         drop (index st + block_values kb jb ib vi) (tmpData st),
                 index = index st + block_values kb jb ib vi,
                 sparse_expanded =
                   (if is_sparse vi then (sparse_expanded st)[b_idx * ns + sidx := True]
                    else sparse_expanded st),
                 found_any = True \<rparr>"
proof -
  have len: "length (copy_values c v kb jb ib (nat (vlen vi))) = block_values kb jb ib vi"
    using length_copy_values [OF ranges] by (simp add: block_values_def)
  have st: "store_seq (tmpData st) (index st) (copy_values c v kb jb ib (nat (vlen vi))) =
      Inr (take (index st) (tmpData st) @ copy_values c v kb jb ib (nat (vlen vi)) @
           drop (index st + block_values kb jb ib vi) (tmpData st),
           index st + block_values kb jb ib vi)"
    using store_seq_block [of "index st" "copy_values c v kb jb ib (nat (vlen vi))" "tmpData st"]
      size len by simp
  show ?thesis
    using hit idx st by (simp add: pack_block_def Let_def)
qed

lemma pack_block_ok:
  assumes ranges: "range_s kb \<le> range_e kb" "range_s jb \<le> range_e jb" "range_s ib \<le> range_e ib"
    and size: "index st + block_values kb jb ib vi \<le> length (tmpData st)"
    and idx: "is_sparse vi \<longrightarrow>
                sfi (label vi) = Some sidx \<and> b_idx * ns + sidx < length (sparse_expanded st)"
    and ok: "is_sparse vi \<or> has_variable (label vi) pmb"
  shows "\<exists>st'. pack_block c kb jb ib sfi ns vi b_idx pmb st = Inr st' \<and>
           length (tmpData st') = length (tmpData st) \<and>
           index st' = index st + block_values kb jb ib vi \<and>
           (\<forall>p<index st. tmpData st' ! p = tmpData st ! p) \<and>
           (\<not> has_variable (label vi) pmb \<longrightarrow>
              (\<forall>p<block_values kb jb ib vi. tmpData st' ! (index st + p) = 0)) \<and>
           length (sparse_expanded st') = length (sparse_expanded st) \<and>
           (is_sparse vi \<longrightarrow>
              sparse_expanded st' ! (b_idx * ns + sidx) = has_variable (label vi) pmb) \<and>
           (\<forall>p. p \<noteq> b_idx * ns + sidx \<longrightarrow>
              sparse_expanded st' ! p = sparse_expanded st ! p) \<and>
           found_any st' = (found_any st \<or> has_variable (label vi) pmb)"
proof (cases "has_variable (label vi) pmb")
  case True
  then obtain v where hit: "find (\<lambda>v. label vi = cv_label v) pmb = Some v"
    using find_has_variable [of "label vi" pmb] by auto
  have len: "length (copy_values c v kb jb ib (nat (vlen vi))) = block_values kb jb ib vi"
    using length_copy_values [OF ranges] by (simp add: block_values_def)
  let ?st' = "\<lparr> tmpData = take (index st) (tmpData st) @
                         copy_values c v kb jb ib (nat (vlen vi)) @
                         drop (index st + block_values kb jb ib vi) (tmpData st),
                 index = index st + block_values kb jb ib vi,
                 sparse_expanded =
                   (if is_sparse vi then (sparse_expanded st)[b_idx * ns + sidx := True]
                    else sparse_expanded st),
                 found_any = True \<rparr>"
  have r: "pack_block c kb jb ib sfi ns vi b_idx pmb st = Inr ?st'"
    by (rule pack_block_found [where sfi = sfi, OF hit ranges idx size])
  have 1: "length (tmpData ?st') = length (tmpData st)"
    using size len by simp
  have 2: "\<forall>p<index st. tmpData ?st' ! p = tmpData st ! p"
    using size by (simp add: nth_append)
  have 3: "is_sparse vi \<longrightarrow> sparse_expanded ?st' ! (b_idx * ns + sidx) = True"
    using idx by simp
  have 4: "\<forall>p. p \<noteq> b_idx * ns + sidx \<longrightarrow> sparse_expanded ?st' ! p = sparse_expanded st ! p"
    by simp
  have 5: "length (sparse_expanded ?st') = length (sparse_expanded st)"
    by simp
  show ?thesis
    using True r 1 2 3 4 5 by (intro exI [where x = ?st']) simp
next
  case False
  with ok have sp: "is_sparse vi" by simp
  with idx have i: "sfi (label vi) = Some sidx" "b_idx * ns + sidx < length (sparse_expanded st)"
    by simp_all
  let ?st' = "\<lparr> tmpData = take (index st) (tmpData st) @
                         replicate (block_values kb jb ib vi) 0 @
                         drop (index st + block_values kb jb ib vi) (tmpData st),
                 index = index st + block_values kb jb ib vi,
                 sparse_expanded = (sparse_expanded st)[b_idx * ns + sidx := False],
                 found_any = found_any st \<rparr>"
  have r: "pack_block c kb jb ib sfi ns vi b_idx pmb st = Inr ?st'"
    by (rule pack_block_missing_sparse [where sfi = sfi, OF False sp i size])
  have 1: "length (tmpData ?st') = length (tmpData st)"
    using size by simp
  have 2: "\<forall>p<index st. tmpData ?st' ! p = tmpData st ! p"
    using size by (simp add: nth_append)
  have 3: "\<forall>p<block_values kb jb ib vi. tmpData ?st' ! (index st + p) = 0"
    using size by (simp add: nth_append)
  have 4: "sparse_expanded ?st' ! (b_idx * ns + sidx) = False"
    using i by simp
  have 5: "\<forall>p. p \<noteq> b_idx * ns + sidx \<longrightarrow> sparse_expanded ?st' ! p = sparse_expanded st ! p"
    by simp
  have 6: "length (sparse_expanded ?st') = length (sparse_expanded st)"
    by simp
  show ?thesis
    using False r 1 2 3 4 5 6 by (intro exI [where x = ?st']) simp
qed

lemma pack_blocks_ok:
  assumes ranges: "range_s kb \<le> range_e kb" "range_s jb \<le> range_e jb" "range_s ib \<le> range_e ib"
    and size: "index st + length blocks * block_values kb jb ib vi \<le> length (tmpData st)"
    and idx: "is_sparse vi \<longrightarrow>
                sfi (label vi) = Some sidx \<and> sidx < ns \<and>
                (b_idx + length blocks) * ns \<le> length (sparse_expanded st)"
    and ok: "is_sparse vi \<or> (\<forall>pmb\<in>set blocks. has_variable (label vi) pmb)"
  shows "\<exists>st'. pack_blocks c kb jb ib sfi ns vi b_idx blocks st = Inr st' \<and>
           length (tmpData st') = length (tmpData st) \<and>
           (\<forall>p<index st. tmpData st' ! p = tmpData st ! p) \<and>
           (\<forall>b<length blocks. \<not> has_variable (label vi) (blocks ! b) \<longrightarrow>
              (\<forall>p<block_values kb jb ib vi.
                 tmpData st' ! (index st + b * block_values kb jb ib vi + p) = 0)) \<and>
           length (sparse_expanded st') = length (sparse_expanded st) \<and>
           (\<forall>p<b_idx * ns. sparse_expanded st' ! p = sparse_expanded st ! p) \<and>
           (is_sparse vi \<longrightarrow>
              (\<forall>b<length blocks. sparse_expanded st' ! ((b_idx + b) * ns + sidx) =
                 has_variable (label vi) (blocks ! b))) \<and>
           found_any st' = (found_any st \<or> (\<exists>pmb\<in>set blocks. has_variable (label vi) pmb))"
  using size idx ok
proof (induction blocks arbitrary: b_idx st)
  case Nil
  then show ?case by simp
next
  case (Cons pmb rest)
  let ?N = "block_values kb jb ib vi"
  have size1: "index st + ?N \<le> length (tmpData st)"
    using Cons.prems(1) by simp
  have idx1: "is_sparse vi \<longrightarrow>
                sfi (label vi) = Some sidx \<and> b_idx * ns + sidx < length (sparse_expanded st)"
  proof
    assume "is_sparse vi"
    with Cons.prems(2) have a: "sfi (label vi) = Some sidx" "sidx < ns"
      "(b_idx + length (pmb # rest)) * ns \<le> length (sparse_expanded st)" by simp_all
    have "b_idx * ns + sidx < b_idx * ns + ns" using a(2) by simp
    also have "\<dots> \<le> (b_idx + length (pmb # rest)) * ns" by (simp add: algebra_simps)
    finally show "sfi (label vi) = Some sidx \<and> b_idx * ns + sidx < length (sparse_expanded st)"
      using a by simp
  qed
  have ok1: "is_sparse vi \<or> has_variable (label vi) pmb"
    using Cons.prems(3) by auto
  from pack_block_ok [where sfi = sfi, OF ranges size1 idx1 ok1, of c]
  obtain st1 where st1: "pack_block c kb jb ib sfi ns vi b_idx pmb st = Inr st1"
    and l1: "length (tmpData st1) = length (tmpData st)"
    and i1: "index st1 = index st + ?N"
    and k1: "\<forall>p<index st. tmpData st1 ! p = tmpData st ! p"
    and z1: "\<not> has_variable (label vi) pmb \<longrightarrow> (\<forall>p<?N. tmpData st1 ! (index st + p) = 0)"
    and e1: "length (sparse_expanded st1) = length (sparse_expanded st)"
    and s1: "is_sparse vi \<longrightarrow>
               sparse_expanded st1 ! (b_idx * ns + sidx) = has_variable (label vi) pmb"
    and u1: "\<forall>p. p \<noteq> b_idx * ns + sidx \<longrightarrow> sparse_expanded st1 ! p = sparse_expanded st ! p"
    and f1: "found_any st1 = (found_any st \<or> has_variable (label vi) pmb)"
    by blast
  have size2: "index st1 + length rest * ?N \<le> length (tmpData st1)"
    using Cons.prems(1) i1 l1 by (simp add: algebra_simps)
  have idx2: "is_sparse vi \<longrightarrow>
                sfi (label vi) = Some sidx \<and> sidx < ns \<and>
                ((b_idx + 1) + length rest) * ns \<le> length (sparse_expanded st1)"
    using Cons.prems(2) e1 by simp
  have ok2: "is_sparse vi \<or> (\<forall>pmb\<in>set rest. has_variable (label vi) pmb)"
    using Cons.prems(3) by auto
  from Cons.IH [OF size2 idx2 ok2]
  obtain st' where st': "pack_blocks c kb jb ib sfi ns vi (b_idx + 1) rest st1 = Inr st'"
    and l2: "length (tmpData st') = length (tmpData st1)"
    and k2: "\<forall>p<index st1. tmpData st' ! p = tmpData st1 ! p"
    and z2: "\<forall>b<length rest. \<not> has_variable (label vi) (rest ! b) \<longrightarrow>
               (\<forall>p<?N. tmpData st' ! (index st1 + b * ?N + p) = 0)"
    and e2: "length (sparse_expanded st') = length (sparse_expanded st1)"
    and u2: "\<forall>p<(b_idx + 1) * ns. sparse_expanded st' ! p = sparse_expanded st1 ! p"
    and s2: "is_sparse vi \<longrightarrow>
               (\<forall>b<length rest. sparse_expanded st' ! ((b_idx + 1 + b) * ns + sidx) =
                  has_variable (label vi) (rest ! b))"
    and f2: "found_any st' = (found_any st1 \<or> (\<exists>pmb\<in>set rest. has_variable (label vi) pmb))"
    by blast
  have r: "pack_blocks c kb jb ib sfi ns vi b_idx (pmb # rest) st = Inr st'"
    using st1 st' by simp
  have A: "length (tmpData st') = length (tmpData st)"
    using l1 l2 by simp
  have B: "\<forall>p<index st. tmpData st' ! p = tmpData st ! p"
    using k1 k2 i1 by simp
  have C: "\<forall>b<length (pmb # rest). \<not> has_variable (label vi) ((pmb # rest) ! b) \<longrightarrow>
             (\<forall>p<?N. tmpData st' ! (index st + b * ?N + p) = 0)"
  proof (intro allI impI)
    fix b p
    assume b: "b < length (pmb # rest)" and m: "\<not> has_variable (label vi) ((pmb # rest) ! b)"
      and p: "p < ?N"
    show "tmpData st' ! (index st + b * ?N + p) = 0"
    proof (cases b)
      case 0
      with m z1 p have "tmpData st1 ! (index st + p) = 0" by simp
      moreover have "index st + p < index st1" using i1 p by simp
      ultimately show ?thesis using k2 0 by simp
    next
      case (Suc b')
      with b m have "b' < length rest" "\<not> has_variable (label vi) (rest ! b')" by simp_all
      with z2 p have "tmpData st' ! (index st1 + b' * ?N + p) = 0" by blast
      moreover have "index st1 + b' * ?N + p = index st + b * ?N + p"
        using i1 Suc by simp
      ultimately show ?thesis by simp
    qed
  qed
  have D: "length (sparse_expanded st') = length (sparse_expanded st)"
    using e1 e2 by simp
  have E: "\<forall>p<b_idx * ns. sparse_expanded st' ! p = sparse_expanded st ! p"
  proof (intro allI impI)
    fix p assume p: "p < b_idx * ns"
    then have "p < (b_idx + 1) * ns" by simp
    with u2 have "sparse_expanded st' ! p = sparse_expanded st1 ! p" by blast
    moreover have "p \<noteq> b_idx * ns + sidx" using p by simp
    ultimately show "sparse_expanded st' ! p = sparse_expanded st ! p" using u1 by simp
  qed
  have F: "is_sparse vi \<longrightarrow>
             (\<forall>b<length (pmb # rest). sparse_expanded st' ! ((b_idx + b) * ns + sidx) =
                has_variable (label vi) ((pmb # rest) ! b))"
  proof (intro allI impI)
    fix b assume sp: "is_sparse vi" and b: "b < length (pmb # rest)"
    from sp Cons.prems(2) have sidx: "sidx < ns" by simp
    show "sparse_expanded st' ! ((b_idx + b) * ns + sidx) =
            has_variable (label vi) ((pmb # rest) ! b)"
    proof (cases b)
      case 0
      have "b_idx * ns + sidx < (b_idx + 1) * ns" using sidx by simp
      with u2 have "sparse_expanded st' ! (b_idx * ns + sidx) =
          sparse_expanded st1 ! (b_idx * ns + sidx)" by blast
      with s1 sp 0 show ?thesis by simp
    next
      case (Suc b')
      with b have "b' < length rest" by simp
      with s2 sp have "sparse_expanded st' ! ((b_idx + 1 + b') * ns + sidx) =
          has_variable (label vi) (rest ! b')" by blast
      with Suc show ?thesis by simp
    qed
  qed
  have G: "found_any st' =
            (found_any st \<or> (\<exists>pmb\<in>set (pmb # rest). has_variable (label vi) pmb))"
    using f1 f2 by auto
  from r A B C D E F G show ?case by blast
qed


lemma sparse_fields_idx:
  assumes "sparse_fields G names idx = (names', idx')"
    and "\<forall>l i. idx l = Some i \<longrightarrow> i < length names"
  shows "(\<forall>l i. idx' l = Some i \<longrightarrow> i < length names') \<and> dom idx \<subseteq> dom idx' \<and>
         (\<forall>v\<in>set G. is_sparse v \<longrightarrow> label v \<in> dom idx')"
  using assms
proof (induction G arbitrary: names idx)
  case Nil
  then show ?case by simp
next
  case (Cons v G)
  show ?case
  proof (cases "is_sparse v")
    case False
    with Cons.prems have "sparse_fields G names idx = (names', idx')" by simp
    from Cons.IH [OF this Cons.prems(2)] False show ?thesis by simp
  next
    case True
    define idx1 where
      "idx1 = (if idx (label v) = None then idx(label v \<mapsto> length names) else idx)"
    from True Cons.prems have r: "sparse_fields G (names @ [label v]) idx1 = (names', idx')"
      by (simp add: idx1_def)
    have inv: "\<forall>l i. idx1 l = Some i \<longrightarrow> i < length (names @ [label v])"
      using Cons.prems(2) by (auto simp: less_Suc_eq idx1_def)
    have d: "dom idx \<subseteq> dom idx1" "label v \<in> dom idx1"
      by (auto simp: idx1_def)
    from Cons.IH [OF r inv] have
      "\<forall>l i. idx' l = Some i \<longrightarrow> i < length names'" "dom idx1 \<subseteq> dom idx'"
      "\<forall>v\<in>set G. is_sparse v \<longrightarrow> label v \<in> dom idx'"
      by simp_all
    with d show ?thesis by (simp add: subset_iff)
  qed
qed

lemma vlen_max_of_ge:
  assumes "v \<in> set G"
  shows "vlen v \<le> vlen_max_of G"
proof -
  have "m \<le> foldl (\<lambda>vlen_max vinfo. max vlen_max (vlen vinfo)) m G \<and>
        (\<forall>v\<in>set G. vlen v \<le> foldl (\<lambda>vlen_max vinfo. max vlen_max (vlen vinfo)) m G)" for m
  proof (induction G arbitrary: m)
    case Nil
    then show ?case by simp
  next
    case (Cons a G)
    from Cons [of "max m (vlen a)"] show ?case by auto
  qed
  with assms show ?thesis by (simp add: vlen_max_of_def)
qed



subsection \<open>The writes of a rank\<close>

lemma pack_block_found_any:
  assumes "pack_block c kb jb ib sfi ns vi b_idx pmb st = Inr st'"
  shows "found_any st' = (found_any st \<or> has_variable (label vi) pmb)"
proof (cases "find (\<lambda>v. label vi = cv_label v) pmb")
  case None
  then have "\<not> has_variable (label vi) pmb" by (simp add: find_has_variable)
  with assms None show ?thesis
    by (auto simp: pack_block_def Let_def split: option.splits sum.splits if_splits prod.splits)
next
  case (Some v)
  then have "has_variable (label vi) pmb"
    using find_has_variable [of "label vi" pmb] by simp
  with assms Some show ?thesis
    by (auto simp: pack_block_def Let_def split: option.splits sum.splits if_splits prod.splits)
qed

lemma pack_blocks_found_any:
  assumes "pack_blocks c kb jb ib sfi ns vi b_idx blocks st = Inr st'"
  shows "found_any st' = (found_any st \<or> (\<exists>pmb\<in>set blocks. has_variable (label vi) pmb))"
  using assms
proof (induction blocks arbitrary: b_idx st)
  case Nil
  then show ?case by simp
next
  case (Cons pmb rest)
  then obtain st1 where 1: "pack_block c kb jb ib sfi ns vi b_idx pmb st = Inr st1"
    and 2: "pack_blocks c kb jb ib sfi ns vi (b_idx + 1) rest st1 = Inr st'"
    by (auto split: sum.splits)
  from pack_block_found_any [OF 1] Cons.IH [OF 2] show ?case by auto
qed

lemma write_vars_names:
  assumes "write_vars c kb jb ib sfi ns tmp_size blocks vars expanded writes =
             Inr (expanded', writes')"
  shows "map fst writes' =
           map fst writes @
           map label (filter (\<lambda>v. \<exists>pmb\<in>set blocks. has_variable (label v) pmb) vars)"
  using assms
proof (induction vars arbitrary: expanded writes)
  case Nil
  then show ?case by simp
next
  case (Cons v vars)
  then obtain st where 1: "pack_variable c kb jb ib sfi ns tmp_size blocks v expanded = Inr st"
    and 2: "write_vars c kb jb ib sfi ns tmp_size blocks vars (sparse_expanded st)
              (if found_any st then writes @ [(label v, tmpData st)] else writes) =
            Inr (expanded', writes')"
    by (auto split: sum.splits)
  from 1 have "pack_blocks c kb jb ib sfi ns v 0 blocks
      \<lparr>tmpData = replicate tmp_size 0, index = 0, sparse_expanded = expanded,
        found_any = False\<rparr> = Inr st"
    by (simp add: pack_variable_def)
  from pack_blocks_found_any [OF this]
  have f: "found_any st = (\<exists>pmb\<in>set blocks. has_variable (label v) pmb)"
    by simp
  from Cons.IH [OF 2] f show ?case by simp
qed

lemma tmp_size_enough:
  assumes "v \<in> set G"
  shows "length blocks * block_values kb jb ib v \<le>
           varSize_of kb jb ib * nat (vlen_max_of G) * length blocks"
proof -
  have "nat (vlen v) \<le> nat (vlen_max_of G)"
    using vlen_max_of_ge [OF assms] by simp
  then have "varSize_of kb jb ib * nat (vlen v) \<le> varSize_of kb jb ib * nat (vlen_max_of G)"
    by simp
  then have "length blocks * block_values kb jb ib v \<le>
      length blocks * (varSize_of kb jb ib * nat (vlen_max_of G))"
    unfolding block_values_def by (rule mult_le_mono2)
  then show ?thesis by (simp add: mult.commute)
qed

lemma pack_variable_ok:
  assumes ranges: "range_s kb \<le> range_e kb" "range_s jb \<le> range_e jb" "range_s ib \<le> range_e ib"
    and v: "v \<in> set G"
    and sf: "sparse_fields G [] Map.empty = (names, sfi)"
    and len: "length expanded = length blocks * length names"
    and ts: "tmp_size = varSize_of kb jb ib * nat (vlen_max_of G) * length blocks"
    and ok: "is_sparse v \<or> (\<forall>pmb\<in>set blocks. has_variable (label v) pmb)"
  shows "\<exists>st. pack_variable c kb jb ib sfi (length names) tmp_size blocks v expanded = Inr st \<and>
              length (sparse_expanded st) = length expanded"
proof -
  let ?st0 = "\<lparr> tmpData = replicate tmp_size 0, index = 0,
                 sparse_expanded = expanded, found_any = False \<rparr>"
  have size: "index ?st0 + length blocks * block_values kb jb ib v \<le> length (tmpData ?st0)"
    using tmp_size_enough [OF v, of blocks kb jb ib] ts by simp
  have "\<exists>sidx. is_sparse v \<longrightarrow>
        sfi (label v) = Some sidx \<and> sidx < length names \<and>
        (0 + length blocks) * length names \<le> length (sparse_expanded ?st0)"
  proof (cases "is_sparse v")
    case True
    with sparse_fields_idx [OF sf] v obtain i where "sfi (label v) = Some i" "i < length names"
      by auto
    with len show ?thesis by auto
  next
    case False
    then show ?thesis by simp
  qed
  then obtain sidx where idx: "is_sparse v \<longrightarrow>
        sfi (label v) = Some sidx \<and> sidx < length names \<and>
        (0 + length blocks) * length names \<le> length (sparse_expanded ?st0)"
    by blast
  from pack_blocks_ok [where sfi = sfi, OF ranges size idx ok, of c]
  obtain st where "pack_blocks c kb jb ib sfi (length names) v 0 blocks ?st0 = Inr st"
    "length (sparse_expanded st) = length (sparse_expanded ?st0)"
    by blast
  then show ?thesis by (simp add: pack_variable_def)
qed

lemma write_vars_ok:
  assumes ranges: "range_s kb \<le> range_e kb" "range_s jb \<le> range_e jb" "range_s ib \<le> range_e ib"
    and sub: "set vars \<subseteq> set G"
    and sf: "sparse_fields G [] Map.empty = (names, sfi)"
    and len: "length expanded = length blocks * length names"
    and ts: "tmp_size = varSize_of kb jb ib * nat (vlen_max_of G) * length blocks"
    and ok: "\<forall>v\<in>set vars. is_sparse v \<or> (\<forall>pmb\<in>set blocks. has_variable (label v) pmb)"
  shows "\<exists>res. write_vars c kb jb ib sfi (length names) tmp_size blocks vars expanded writes =
                 Inr res"
  using sub len ok
proof (induction vars arbitrary: expanded writes)
  case Nil
  then show ?case by simp
next
  case (Cons v vars)
  then have v: "v \<in> set G"
    and okv: "is_sparse v \<or> (\<forall>pmb\<in>set blocks. has_variable (label v) pmb)"
    by simp_all
  from pack_variable_ok [OF ranges v sf Cons.prems(2) ts okv, of c]
  obtain st where st: "pack_variable c kb jb ib sfi (length names) tmp_size blocks v expanded =
      Inr st" and l: "length (sparse_expanded st) = length expanded"
    by blast
  have sub': "set vars \<subseteq> set G" using Cons.prems(1) by simp
  have len': "length (sparse_expanded st) = length blocks * length names"
    using l Cons.prems(2) by simp
  have ok': "\<forall>v\<in>set vars. is_sparse v \<or> (\<forall>pmb\<in>set blocks. has_variable (label v) pmb)"
    using Cons.prems(3) by simp
  from Cons.IH [OF sub' len' ok',
      of "if found_any st then writes @ [(label v, tmpData st)] else writes"]
  show ?case using st by simp
qed

text \<open>
  C5, as the code has it: on a rank the write of a variable of the global set is issued
  if and only if \<open>found_any\<close> is true on that rank, that is if one of its local blocks has
  the variable; the writes a rank issues are those of the variables that one of its blocks
  has, in the order of the set.  A rank none of whose blocks has the variable issues no
  write for it.  (The packing succeeds when every block has at least one cell and every
  dense variable is on every block.)
\<close>

theorem writes_follow_local_found_any:
  "(WriteVariables cast out_kb out_jb out_ib uninit block_list all_unique_vars =
      Inr (expanded, writes) \<longrightarrow>
    map fst writes =
      map label (filter (\<lambda>v. \<exists>pmb\<in>set block_list. has_variable (label v) pmb)
                   all_unique_vars)) \<and>
   (range_s out_kb \<le> range_e out_kb \<and> range_s out_jb \<le> range_e out_jb \<and>
    range_s out_ib \<le> range_e out_ib \<and>
    (\<forall>v\<in>set all_unique_vars.
       is_sparse v \<or> (\<forall>pmb\<in>set block_list. has_variable (label v) pmb)) \<longrightarrow>
    (\<exists>res. WriteVariables cast out_kb out_jb out_ib uninit block_list all_unique_vars =
            Inr res))"
proof -
  obtain names sfi where sf: "sparse_fields all_unique_vars [] Map.empty = (names, sfi)"
    by (cases "sparse_fields all_unique_vars [] Map.empty") auto
  let ?ts = "varSize_of out_kb out_jb out_ib * nat (vlen_max_of all_unique_vars) *
               length block_list"
  let ?e0 = "map uninit [0..<length block_list * length names]"
  have W: "WriteVariables cast out_kb out_jb out_ib uninit block_list all_unique_vars =
      write_vars cast out_kb out_jb out_ib sfi (length names) ?ts block_list all_unique_vars
        ?e0 []"
    by (simp add: WriteVariables_def Let_def sf)
  have A: "map fst writes =
      map label (filter (\<lambda>v. \<exists>pmb\<in>set block_list. has_variable (label v) pmb)
                   all_unique_vars)"
    if "WriteVariables cast out_kb out_jb out_ib uninit block_list all_unique_vars =
      Inr (expanded, writes)"
    using write_vars_names [of cast out_kb out_jb out_ib sfi "length names" ?ts block_list
        all_unique_vars ?e0 "[]" expanded writes] that
    unfolding W by simp
  have B: "\<exists>res. WriteVariables cast out_kb out_jb out_ib uninit block_list all_unique_vars =
            Inr res"
    if "range_s out_kb \<le> range_e out_kb" "range_s out_jb \<le> range_e out_jb"
      "range_s out_ib \<le> range_e out_ib"
      "\<forall>v\<in>set all_unique_vars.
         is_sparse v \<or> (\<forall>pmb\<in>set block_list. has_variable (label v) pmb)"
    unfolding W
    by (rule write_vars_ok [OF that(1-3) subset_refl sf _ refl that(4)]) simp
  from A B show ?thesis by blast
qed

theorem writes_follow_local_found_any_witness:
  "\<exists>res. WriteVariables id \<lparr>range_s = 0, range_e = 0\<rparr> \<lparr>range_s = 0, range_e = 0\<rparr>
          \<lparr>range_s = 0, range_e = 0\<rparr> even [[]]
          [\<lparr>label = ''s'', vlen = 1, is_sparse = True, is_vector = False\<rparr>] = Inr res \<and>
        snd res = []"
proof -
  let ?r = "\<lparr>range_s = 0, range_e = 0\<rparr>"
  let ?S = "\<lparr>label = ''s'', vlen = 1, is_sparse = True, is_vector = False\<rparr>"
  let ?W = "WriteVariables id ?r ?r ?r even [[]] [?S]"
  have h: "range_s ?r \<le> range_e ?r \<and> range_s ?r \<le> range_e ?r \<and> range_s ?r \<le> range_e ?r \<and>
      (\<forall>v\<in>set [?S]. is_sparse v \<or> (\<forall>pmb\<in>set [[]]. has_variable (label v) pmb))"
    by simp
  from writes_follow_local_found_any [of id ?r ?r ?r even "[[]]" "[?S]"] h
  have "\<exists>res. ?W = Inr res" by blast
  then obtain res where "?W = Inr res" ..
  then obtain expanded writes where res: "?W = Inr (expanded, writes)"
    by (cases res) simp
  from writes_follow_local_found_any [of id ?r ?r ?r even "[[]]" "[?S]" expanded writes] res
  have "map fst writes = []"
    by (simp add: has_variable_def)
  with res show ?thesis by simp
qed

text \<open>
  C5 as stated fails: with a sparse variable that the only block of rank 0 has and the
  only block of rank 1 lacks, rank 0 issues the write of the variable and rank 1 issues
  none.
\<close>

theorem collective_write_counterexample:
  "WriteVariables id \<lparr>range_s = 0, range_e = 0\<rparr> \<lparr>range_s = 0, range_e = 0\<rparr>
     \<lparr>range_s = 0, range_e = 0\<rparr> even
     [[\<lparr>cv_label = ''s'', cv_dim4 = 1, cv_sparse = True, cv_vector = False,
         cv_data = of_nat \<circ> Suc \<circ> fst\<rparr>]]
     [\<lparr>label = ''s'', vlen = 1, is_sparse = True, is_vector = False\<rparr>] =
     Inr ([True], [(''s'', [1])]) \<and>
   WriteVariables id \<lparr>range_s = 0, range_e = 0\<rparr> \<lparr>range_s = 0, range_e = 0\<rparr>
     \<lparr>range_s = 0, range_e = 0\<rparr> even [[]]
     [\<lparr>label = ''s'', vlen = 1, is_sparse = True, is_vector = False\<rparr>] =
     Inr ([False], [])"
  by (simp add: WriteVariables_def pack_variable_def pack_block_def copy_values_def
      varSize_of_def vlen_max_of_def Let_def)

end
